theory Spec2Isabelle
  imports Complex_Main "HOL-Library.Word" "HOL-Library.Signed_Division"
begin

section \<open>Data model of the player component\<close>

text \<open>
  The component \<^verbatim>\<open>YouTubeMusicPlayer\<close> of
  \<^verbatim>\<open>src/app/components/youtubeMusicPlayer.tsx\<close> keeps its state in React state
  cells (\<^verbatim>\<open>playlist\<close>, \<^verbatim>\<open>currentTrackIndex\<close>, \<^verbatim>\<open>isPlaying\<close>,
  \<^verbatim>\<open>playMode\<close>) and in one mutable ref (\<^verbatim>\<open>playedIndicesRef\<close>). Every handler
  runs to completion on the state of the render it was created in, so a handler is a
  function from the state to the next state.

  A JavaScript string is a sequence of UTF-16 code units, and \<^verbatim>\<open>length\<close> counts
  code units: a string is a list of 16-bit words. \<^verbatim>\<open>number\<close> values that the
  component uses as indices and identifiers are integers; they are modelled as
  unbounded integers (exact below \<open>2^53\<close>, the range of \<^verbatim>\<open>Date.now()\<close> and of
  every list index).
\<close>

type_synonym jschar = "16 word"
type_synonym jsstring = "jschar list"

text \<open>The code units of an ASCII literal.\<close>

definition ascii :: "string \<Rightarrow> jsstring" where
  "ascii s = map of_char s"

record PlaylistItem =
  item_id :: int
  youtubeId :: jsstring
  title :: jsstring
  originalUrl :: jsstring

text \<open>\<^verbatim>\<open>type PlayMode = "none" | "repeat-all" | "shuffle"\<close>\<close>

datatype PlayMode = ModeNone | RepeatAll | Shuffle

record player =
  playlist :: "PlaylistItem list"
  currentTrackIndex :: "int option"
  isPlaying :: bool
  playMode :: PlayMode
  playedIndices :: "int list"

text \<open>The state of a freshly mounted component (the \<^verbatim>\<open>useState\<close> initial values).\<close>

definition initial_player :: player where
  "initial_player =
     \<lparr>playlist = [], currentTrackIndex = None, isPlaying = False,
      playMode = ModeNone, playedIndices = []\<rparr>"

section \<open>The URL parser\<close>

text \<open>
  \<^verbatim>\<open>extractVideoId\<close> matches the URL against the regular expression
  \<^verbatim>\<open>/^.*(?:youtu.be\/|v\/|e\/|embed\/|watch\?v=|watch\?feature=player_embedded&v=)([^#&?]*).*/\<close>
  and takes the first capture group when it has 11 code units.

  The expression is embedded as a value of a small datatype of regular expressions,
  and matched by a backtracking matcher in continuation-passing style, which is how
  the specification of the platform's matcher is written: a greedy star tries the
  longest repetition first and gives back one character at a time, an alternation
  tries its alternatives in order, and a group records what it consumed. The
  expression has no flags: \<^verbatim>\<open>.\<close> matches every code unit but a line terminator,
  and \<^verbatim>\<open>^\<close> pins the match to the start of the input.
\<close>

definition line_terminator :: "jschar \<Rightarrow> bool" where
  "line_terminator c = (c = 0x0A \<or> c = 0x0D \<or> c = 0x2028 \<or> c = 0x2029)"

datatype charclass = AnyChar | NoneOf "jschar list" | Lit jschar

fun cc_matches :: "charclass \<Rightarrow> jschar \<Rightarrow> bool" where
  "cc_matches AnyChar c = (\<not> line_terminator c)"
| "cc_matches (NoneOf cs) c = (c \<notin> set cs)"
| "cc_matches (Lit a) c = (c = a)"

datatype regex =
  Eps | Char charclass | Star charclass | Seq regex regex | Alt regex regex | Group regex

text \<open>The matcher's state: the capture of group 1 (if set) and the input left.\<close>

type_synonym mstate = "jsstring option \<times> jsstring"

fun star_greedy :: "charclass \<Rightarrow> (jsstring \<Rightarrow> 'r option) \<Rightarrow> jsstring \<Rightarrow> 'r option" where
  "star_greedy cc k [] = k []"
| "star_greedy cc k (c # cs) =
     (if cc_matches cc c then
        (case star_greedy cc k cs of Some r \<Rightarrow> Some r | None \<Rightarrow> k (c # cs))
      else k (c # cs))"

fun rmatch :: "regex \<Rightarrow> (mstate \<Rightarrow> 'r option) \<Rightarrow> mstate \<Rightarrow> 'r option" where
  "rmatch Eps k st = k st"
| "rmatch (Char cc) k (cap, []) = None"
| "rmatch (Char cc) k (cap, c # cs) = (if cc_matches cc c then k (cap, cs) else None)"
| "rmatch (Star cc) k (cap, cs) = star_greedy cc (\<lambda>rest. k (cap, rest)) cs"
| "rmatch (Seq r1 r2) k st = rmatch r1 (rmatch r2 k) st"
| "rmatch (Alt r1 r2) k st =
     (case rmatch r1 k st of Some r \<Rightarrow> Some r | None \<Rightarrow> rmatch r2 k st)"
| "rmatch (Group r) k (cap, cs) =
     rmatch r (\<lambda>(_, rest). k (Some (take (length cs - length rest) cs), rest)) (cap, cs)"

text \<open>A run of literal characters.\<close>

definition lit :: "string \<Rightarrow> regex" where
  "lit s = foldr (\<lambda>c r. Seq (Char (Lit (of_char c))) r) s Eps"

definition regExp :: regex where
  "regExp =
     Seq (Star AnyChar)
      (Seq (Alt (Seq (lit ''youtu'') (Seq (Char AnyChar) (lit ''be/'')))
           (Alt (lit ''v/'')
           (Alt (lit ''e/'')
           (Alt (lit ''embed/'')
           (Alt (lit ''watch?v='')
                (lit ''watch?feature=player_embedded&v=''))))))
      (Seq (Group (Star (NoneOf (ascii ''#&?''))))
           (Star AnyChar)))"

text \<open>
  \<^verbatim>\<open>url.match(regExp)\<close> for an expression that starts with \<^verbatim>\<open>^\<close>: \<open>None\<close> is
  \<^verbatim>\<open>null\<close>, \<open>Some cap\<close> is a match whose element 1 is \<open>cap\<close>.
\<close>

definition regex_match :: "regex \<Rightarrow> jsstring \<Rightarrow> jsstring option option" where
  "regex_match r s = rmatch r (\<lambda>(cap, rest). Some cap) (None, s)"

text \<open>\<^verbatim>\<open>return match && match[1].length === 11 ? match[1] : null\<close>\<close>

definition extractVideoId :: "jsstring \<Rightarrow> jsstring option" where
  "extractVideoId url =
     (case regex_match regExp url of
        None \<Rightarrow> None
      | Some None \<Rightarrow> None
      | Some (Some g) \<Rightarrow> if length g = 11 then Some g else None)"

text \<open>
  \<^verbatim>\<open>String.prototype.trim\<close> removes white space and line terminators from both
  ends.
\<close>

definition js_whitespace :: "jschar \<Rightarrow> bool" where
  "js_whitespace c =
     (c \<in> set [0x09, 0x0A, 0x0B, 0x0C, 0x0D, 0x20, 0xA0, 0x1680,
                0x2000, 0x2001, 0x2002, 0x2003, 0x2004, 0x2005, 0x2006, 0x2007, 0x2008,
                0x2009, 0x200A, 0x2028, 0x2029, 0x202F, 0x205F, 0x3000, 0xFEFF])"

definition trim :: "jsstring \<Rightarrow> jsstring" where
  "trim s = rev (dropWhile js_whitespace (rev (dropWhile js_whitespace s)))"

section \<open>The sequencer\<close>

text \<open>
  \<^verbatim>\<open>selectVideo(index)\<close>: the index is taken only when it is inside the playlist; in
  shuffle mode the history of played indices is replaced by the one index.
\<close>

definition selectVideo :: "int \<Rightarrow> player \<Rightarrow> player" where
  "selectVideo index s =
     (if index \<ge> 0 \<and> index < int (length (playlist s)) then
        s\<lparr>currentTrackIndex := Some index, isPlaying := True,
          playedIndices := (if playMode s = Shuffle then [index] else playedIndices s)\<rparr>
      else s)"

text \<open>
  \<^verbatim>\<open>Math.floor(Math.random() * n)\<close>: the value \<open>rnd\<close> of \<^verbatim>\<open>Math.random()\<close> is
  an argument of the model. The platform returns \<open>0 \<le> rnd < 1\<close>.
\<close>

definition random_index :: "real \<Rightarrow> nat \<Rightarrow> int" where
  "random_index rnd n = \<lfloor>rnd * real n\<rfloor>"

text \<open>
  \<^verbatim>\<open>playNext()\<close>. JavaScript's \<^verbatim>\<open>%\<close> truncates (the sign of the dividend), which
  is \<open>smod\<close>. The push onto \<^verbatim>\<open>playedIndicesRef.current\<close> happens before
  \<^verbatim>\<open>selectVideo(nextIndex)\<close> is called at the end of the handler.
\<close>

definition playNext :: "real \<Rightarrow> player \<Rightarrow> player" where
  "playNext rnd s =
     (if length (playlist s) = 0 then s
      else if playMode s = Shuffle then
        (let availableIndices =
               filter (\<lambda>i. i \<notin> set (playedIndices s)) (map int [0..<length (playlist s)])
         in if length availableIndices = 0 then
              (let nextIndex = random_index rnd (length (playlist s))
               in selectVideo nextIndex (s\<lparr>playedIndices := [] @ [nextIndex]\<rparr>))
            else
              (let nextIndex = availableIndices ! nat (random_index rnd (length availableIndices))
               in selectVideo nextIndex (s\<lparr>playedIndices := playedIndices s @ [nextIndex]\<rparr>)))
      else
        (let nextIndex =
               (case currentTrackIndex s of None \<Rightarrow> 0 | Some c \<Rightarrow> c + 1)
                 smod int (length (playlist s))
         in if playMode s = ModeNone \<and> nextIndex = 0 \<and> currentTrackIndex s \<noteq> None
               \<and> length (playlist s) > 1
            then s\<lparr>isPlaying := False, currentTrackIndex := None\<rparr>
            else selectVideo nextIndex s))"

text \<open>\<^verbatim>\<open>playPrevious()\<close>\<close>

definition playPrevious :: "player \<Rightarrow> player" where
  "playPrevious s =
     (if length (playlist s) = 0 then s
      else
        (let prevIndex =
               (case currentTrackIndex s of
                  None \<Rightarrow> 0
                | Some c \<Rightarrow> (c - 1 + int (length (playlist s))) smod int (length (playlist s)))
         in selectVideo prevIndex s))"

text \<open>\<^verbatim>\<open>togglePlayMode()\<close>\<close>

definition togglePlayMode :: "player \<Rightarrow> player" where
  "togglePlayMode s =
     (case playMode s of
        ModeNone \<Rightarrow> s\<lparr>playMode := RepeatAll\<rparr>
      | RepeatAll \<Rightarrow> s\<lparr>playedIndices := [], playMode := Shuffle\<rparr>
      | Shuffle \<Rightarrow> s\<lparr>playMode := ModeNone\<rparr>)"

text \<open>Consecutive calls of \<^verbatim>\<open>playNext\<close>, one random value for each call.\<close>

fun playNext_times :: "real list \<Rightarrow> player \<Rightarrow> player" where
  "playNext_times [] s = s"
| "playNext_times (rnd # rnds) s = playNext_times rnds (playNext rnd s)"

text \<open>The positions after each of a run of consecutive calls of \<^verbatim>\<open>playNext\<close>.\<close>

fun playNext_trace :: "real list \<Rightarrow> player \<Rightarrow> int option list" where
  "playNext_trace [] s = []"
| "playNext_trace (rnd # rnds) s =
     currentTrackIndex (playNext rnd s) # playNext_trace rnds (playNext rnd s)"

text \<open>
  The callbacks of the embedded player: \<^verbatim>\<open>onPlayerPlay\<close>, \<^verbatim>\<open>onPlayerPause\<close> and
  \<^verbatim>\<open>onPlayerEnd\<close> (the branch of \<^verbatim>\<open>onPlayerStateChange\<close> for state 0 and the
  interval check do the same as \<^verbatim>\<open>onPlayerEnd\<close>).
\<close>

definition onPlayerPlay :: "player \<Rightarrow> player" where
  "onPlayerPlay s = s\<lparr>isPlaying := True\<rparr>"

definition onPlayerPause :: "player \<Rightarrow> player" where
  "onPlayerPause s = s\<lparr>isPlaying := False\<rparr>"

definition onPlayerEnd :: "real \<Rightarrow> player \<Rightarrow> player" where
  "onPlayerEnd rnd s =
     (if playMode s = RepeatAll \<or> playMode s = Shuffle then playNext rnd s
      else
        (let nextIndex = (case currentTrackIndex s of Some c \<Rightarrow> c + 1 | None \<Rightarrow> 0)
         in if nextIndex < int (length (playlist s)) then playNext rnd s
            else s\<lparr>isPlaying := False\<rparr>))"

section \<open>The playlist store\<close>

text \<open>
  \<^verbatim>\<open>addVideo()\<close> reads the two input fields and \<^verbatim>\<open>Date.now()\<close>; they are
  arguments of the model. The two early returns set the error message and leave the
  rest of the state as it is.
\<close>

datatype add_error = EmptyField | InvalidUrl

definition addVideo :: "jsstring \<Rightarrow> jsstring \<Rightarrow> int \<Rightarrow> player \<Rightarrow> add_error + player" where
  "addVideo newVideoUrl newVideoTitle now s =
     (if trim newVideoUrl = [] \<or> trim newVideoTitle = [] then Inl EmptyField
      else
        (case extractVideoId newVideoUrl of
           None \<Rightarrow> Inl InvalidUrl
         | Some yid \<Rightarrow>
             (let newPlaylistItem =
                    \<lparr>item_id = now, youtubeId = yid, title = trim newVideoTitle,
                     originalUrl = trim newVideoUrl\<rparr>;
                  s1 = s\<lparr>playlist := playlist s @ [newPlaylistItem]\<rparr>
              in Inr (if length (playlist s) = 0 \<and> currentTrackIndex s = None
                      then s1\<lparr>currentTrackIndex := Some 0, isPlaying := True\<rparr>
                      else s1))))"

text \<open>\<^verbatim>\<open>Array.prototype.findIndex\<close>: the first index whose element passes, or \<open>-1\<close>.\<close>

fun findIndex :: "('a \<Rightarrow> bool) \<Rightarrow> 'a list \<Rightarrow> int" where
  "findIndex P [] = -1"
| "findIndex P (x # xs) =
     (if P x then 0 else (let r = findIndex P xs in if r = -1 then -1 else r + 1))"

text \<open>
  \<^verbatim>\<open>removeVideo(idToRemove)\<close>. The call \<^verbatim>\<open>playerRef.current.stopVideo()\<close> acts on
  the embedded player only and is not part of the state.
\<close>

definition removeVideo :: "int \<Rightarrow> player \<Rightarrow> player" where
  "removeVideo idToRemove s =
     (let indexToRemove = findIndex (\<lambda>video. item_id video = idToRemove) (playlist s)
      in if indexToRemove = -1 then s
         else
           (let newPlaylist = filter (\<lambda>video. item_id video \<noteq> idToRemove) (playlist s);
                s1 = s\<lparr>playlist := newPlaylist\<rparr>;
                s2 =
                  (if currentTrackIndex s = Some indexToRemove then
                     (if length newPlaylist = 0 then
                        s1\<lparr>currentTrackIndex := None, isPlaying := False\<rparr>
                      else if indexToRemove < int (length newPlaylist) then
                        s1\<lparr>currentTrackIndex := Some indexToRemove, isPlaying := True\<rparr>
                      else
                        s1\<lparr>currentTrackIndex := Some (int (length newPlaylist) - 1),
                           isPlaying := True\<rparr>)
                   else
                     (case currentTrackIndex s of
                        Some c \<Rightarrow>
                          if indexToRemove < c then s1\<lparr>currentTrackIndex := Some (c - 1)\<rparr>
                          else s1
                      | None \<Rightarrow> s1))
            in s2\<lparr>playedIndices :=
                    map (\<lambda>idx. if idx > indexToRemove then idx - 1 else idx)
                      (filter (\<lambda>idx. idx \<noteq> indexToRemove) (playedIndices s))\<rparr>))"

section \<open>The specification's formula for the previous track\<close>

text \<open>
  The specification gives the previous position as
  \<^verbatim>\<open>prevIndex = (position ?? 0 - 1 + length) mod length\<close>: an unselected position
  counts as 0 before the step back.
\<close>

definition spec_prevIndex :: "int option \<Rightarrow> nat \<Rightarrow> int" where
  "spec_prevIndex position len =
     ((case position of None \<Rightarrow> 0 | Some p \<Rightarrow> p) - 1 + int len) mod int len"

section \<open>A declarative reading of the URL expression\<close>

text \<open>
  What the expression accepts, said without the matcher: the characters that end the
  identifier, and the texts that the six alternatives of the expression match
  (\<^verbatim>\<open>youtu.be/\<close> with any character but a line terminator for the dot).
  \<open>link_rest\<close> gives the input left after the alternative that matches at the start
  of its argument, and \<open>after_star\<close> is the matcher for everything after the leading
  \<^verbatim>\<open>.*\<close>; both are used to relate the matcher to this reading.
\<close>

definition id_delimiter :: "jschar \<Rightarrow> bool" where
  "id_delimiter c = (c \<in> set (ascii ''#&?''))"

definition link_prefix :: "jsstring \<Rightarrow> bool" where
  "link_prefix p =
     ((length p = 9 \<and> take 5 p = ascii ''youtu'' \<and> \<not> line_terminator (p ! 5)
        \<and> drop 6 p = ascii ''be/'')
      \<or> p \<in> set [ascii ''v/'', ascii ''e/'', ascii ''embed/'', ascii ''watch?v='',
                   ascii ''watch?feature=player_embedded&v=''])"

definition lit_rest :: "string \<Rightarrow> jsstring \<Rightarrow> jsstring option" where
  "lit_rest s cs = (if take (length s) cs = ascii s then Some (drop (length s) cs) else None)"

definition short_link_rest :: "jsstring \<Rightarrow> jsstring option" where
  "short_link_rest cs =
     (case lit_rest ''youtu'' cs of
        None \<Rightarrow> None
      | Some [] \<Rightarrow> None
      | Some (c # cs') \<Rightarrow> if line_terminator c then None else lit_rest ''be/'' cs')"

definition orelse :: "'a option \<Rightarrow> 'a option \<Rightarrow> 'a option" where
  "orelse a b = (case a of Some x \<Rightarrow> Some x | None \<Rightarrow> b)"

definition link_rest :: "jsstring \<Rightarrow> jsstring option" where
  "link_rest cs =
     orelse (short_link_rest cs)
    (orelse (lit_rest ''v/'' cs)
    (orelse (lit_rest ''e/'' cs)
    (orelse (lit_rest ''embed/'' cs)
    (orelse (lit_rest ''watch?v='' cs)
            (lit_rest ''watch?feature=player_embedded&v='' cs)))))"

definition after_star :: "mstate \<Rightarrow> jsstring option option" where
  "after_star =
     rmatch
      (Seq (Alt (Seq (lit ''youtu'') (Seq (Char AnyChar) (lit ''be/'')))
           (Alt (lit ''v/'')
           (Alt (lit ''e/'')
           (Alt (lit ''embed/'')
           (Alt (lit ''watch?v='')
                (lit ''watch?feature=player_embedded&v=''))))))
      (Seq (Group (Star (NoneOf (ascii ''#&?''))))
           (Star AnyChar))) (\<lambda>(cap, rest). Some cap)"

section \<open>Numbers as decimal text\<close>

text \<open>
  \<^verbatim>\<open>String(n)\<close> for an integer \<open>n\<close> is its decimal text (the component only
  converts list indices and identifiers, which stay below the \<open>10^21\<close> where the
  platform switches to exponent notation). \<^verbatim>\<open>Number.parseInt(s, 10)\<close> skips leading
  white space, reads an optional sign and then the longest run of decimal digits;
  \<open>None\<close> is \<^verbatim>\<open>NaN\<close>.
\<close>

definition is_digit :: "jschar \<Rightarrow> bool" where
  "is_digit c = (0x30 \<le> c \<and> c \<le> 0x39)"

definition digit_val :: "jschar \<Rightarrow> nat" where
  "digit_val c = unat c - 48"

definition digit_char :: "nat \<Rightarrow> jschar" where
  "digit_char d = of_nat (48 + d)"

fun digits_of :: "nat \<Rightarrow> jsstring" where
  "digits_of n = (if n < 10 then [digit_char n] else digits_of (n div 10) @ [digit_char (n mod 10)])"

definition digits_value :: "jsstring \<Rightarrow> nat" where
  "digits_value ds = foldl (\<lambda>a c. 10 * a + digit_val c) 0 ds"

definition Number_toString :: "int \<Rightarrow> jsstring" where
  "Number_toString n = (if n < 0 then 0x2D # digits_of (nat (- n)) else digits_of (nat n))"

definition parseInt :: "jsstring \<Rightarrow> int option" where
  "parseInt s =
     (let t = dropWhile js_whitespace s;
          neg = (t \<noteq> [] \<and> hd t = 0x2D);
          u = (if t \<noteq> [] \<and> (hd t = 0x2D \<or> hd t = 0x2B) then tl t else t);
          z = takeWhile is_digit u
      in if z = [] then None
         else Some (if neg then - int (digits_value z) else int (digits_value z)))"

section \<open>The platform's JSON functions\<close>

text \<open>
  \<^verbatim>\<open>JSON.parse\<close> is modelled as a lexer followed by a pushdown recogniser that builds
  the value; \<open>None\<close> is the \<^verbatim>\<open>SyntaxError\<close> that \<^verbatim>\<open>JSON.parse\<close> throws. A number
  is kept as the exact decimal it is written as, mantissa and power of ten (the platform
  rounds to a double, which is the same value for every integer below \<open>2^53\<close>). The
  members of an object are kept in the order of the text.
\<close>

datatype json =
  JNull | JBool bool | JNumber int int | JString jsstring | JArray "json list"
  | JObject "(jsstring \<times> json) list"

datatype token =
  TLBracket | TRBracket | TLBrace | TRBrace | TComma | TColon
  | TString jsstring | TNumber int int | TTrue | TFalse | TNull

definition json_ws :: "jschar \<Rightarrow> bool" where
  "json_ws c = (c = 0x20 \<or> c = 0x09 \<or> c = 0x0A \<or> c = 0x0D)"

definition hex_val :: "jschar \<Rightarrow> nat option" where
  "hex_val c =
     (if 0x30 \<le> c \<and> c \<le> 0x39 then Some (unat c - 48)
      else if 0x61 \<le> c \<and> c \<le> 0x66 then Some (unat c - 87)
      else if 0x41 \<le> c \<and> c \<le> 0x46 then Some (unat c - 55)
      else None)"

definition escape_char :: "jschar \<Rightarrow> jschar option" where
  "escape_char e =
     (if e = 0x22 then Some 0x22
      else if e = 0x5C then Some 0x5C
      else if e = 0x2F then Some 0x2F
      else if e = 0x62 then Some 0x08
      else if e = 0x66 then Some 0x0C
      else if e = 0x6E then Some 0x0A
      else if e = 0x72 then Some 0x0D
      else if e = 0x74 then Some 0x09
      else None)"

definition hex4 :: "jschar \<Rightarrow> jschar \<Rightarrow> jschar \<Rightarrow> jschar \<Rightarrow> jschar option" where
  "hex4 h1 h2 h3 h4 =
     (case (hex_val h1, hex_val h2, hex_val h3, hex_val h4) of
        (Some a, Some b, Some c, Some d) \<Rightarrow> Some (of_nat (((a * 16 + b) * 16 + c) * 16 + d))
      | _ \<Rightarrow> None)"

fun lex_string :: "jsstring \<Rightarrow> (jsstring \<times> jsstring) option" where
  "lex_string [] = None"
| "lex_string (c # cs) =
     (if c = 0x22 then Some ([], cs)
      else if c = 0x5C then
        (case cs of
           [] \<Rightarrow> None
         | e # cs' \<Rightarrow>
             if e = 0x75 then
               (case cs' of
                  h1 # h2 # h3 # h4 # cs'' \<Rightarrow>
                    (case hex4 h1 h2 h3 h4 of
                       None \<Rightarrow> None
                     | Some x \<Rightarrow> map_option (\<lambda>(s, r). (x # s, r)) (lex_string cs''))
                | _ \<Rightarrow> None)
             else
               (case escape_char e of
                  None \<Rightarrow> None
                | Some x \<Rightarrow> map_option (\<lambda>(s, r). (x # s, r)) (lex_string cs')))
      else if c < 0x20 then None
      else map_option (\<lambda>(s, r). (c # s, r)) (lex_string cs))"

definition lex_fraction :: "jsstring \<Rightarrow> (jsstring \<times> jsstring) option" where
  "lex_fraction cs =
     (if cs \<noteq> [] \<and> hd cs = 0x2E then
        (if takeWhile is_digit (tl cs) = [] then None
         else Some (takeWhile is_digit (tl cs), dropWhile is_digit (tl cs)))
      else Some ([], cs))"

definition lex_exponent :: "jsstring \<Rightarrow> (int \<times> jsstring) option" where
  "lex_exponent cs =
     (if cs \<noteq> [] \<and> (hd cs = 0x65 \<or> hd cs = 0x45) then
        (let r = tl cs;
             neg = (r \<noteq> [] \<and> hd r = 0x2D);
             u = (if r \<noteq> [] \<and> (hd r = 0x2D \<or> hd r = 0x2B) then tl r else r);
             ds = takeWhile is_digit u
         in if ds = [] then None
            else Some (if neg then - int (digits_value ds) else int (digits_value ds),
                       dropWhile is_digit u))
      else Some (0, cs))"

definition lex_number :: "jsstring \<Rightarrow> ((int \<times> int) \<times> jsstring) option" where
  "lex_number cs =
     (let neg = (cs \<noteq> [] \<and> hd cs = 0x2D);
          u = (if neg then tl cs else cs);
          ip = takeWhile is_digit u
      in if ip = [] \<or> (hd ip = 0x30 \<and> 1 < length ip) then None
         else
           (case lex_fraction (dropWhile is_digit u) of
              None \<Rightarrow> None
            | Some (fp, r1) \<Rightarrow>
                (case lex_exponent r1 of
                   None \<Rightarrow> None
                 | Some (e, r2) \<Rightarrow>
                     Some ((if neg then - int (digits_value (ip @ fp))
                            else int (digits_value (ip @ fp)),
                            e - int (length fp)), r2))))"

lemma lex_string_length: "lex_string cs = Some (s, r) \<Longrightarrow> length r < length cs"
proof (induction cs arbitrary: s r rule: lex_string.induct)
  case 1
  then show ?case by simp
next
  case (2 c cs)
  then show ?case
    by (auto split: if_splits list.splits option.splits) fastforce+
qed

lemma lex_fraction_length: "lex_fraction cs = Some (fp, r) \<Longrightarrow> length r \<le> length cs"
  using length_dropWhile_le [of is_digit "tl cs"]
  by (auto simp: lex_fraction_def split: if_splits)

lemma lex_exponent_length: "lex_exponent cs = Some (e, r) \<Longrightarrow> length r \<le> length cs"
proof -
  have "length (dropWhile is_digit (tl cs)) \<le> length cs"
    using length_dropWhile_le [of is_digit "tl cs"] by simp
  moreover have "length (dropWhile is_digit (tl (tl cs))) \<le> length cs"
    using length_dropWhile_le [of is_digit "tl (tl cs)"] by simp
  ultimately show "lex_exponent cs = Some (e, r) \<Longrightarrow> length r \<le> length cs"
    by (auto simp: lex_exponent_def Let_def split: if_splits)
qed

lemma lex_number_length:
  assumes "lex_number cs = Some (n, r)"
  shows "length r < length cs"
proof -
  define u where "u = (if cs \<noteq> [] \<and> hd cs = 0x2D then tl cs else cs)"
  from assms obtain fp r1 e where
    ip: "takeWhile is_digit u \<noteq> []"
    and f: "lex_fraction (dropWhile is_digit u) = Some (fp, r1)"
    and x: "lex_exponent r1 = Some (e, r)"
    unfolding u_def
    by (auto simp: lex_number_def Let_def split: if_splits option.splits)
  have "length (takeWhile is_digit u) + length (dropWhile is_digit u) = length u"
    by (metis length_append takeWhile_dropWhile_id)
  moreover have "0 < length (takeWhile is_digit u)" using ip by blast
  ultimately have "length (dropWhile is_digit u) < length u" by linarith
  moreover have "length u \<le> length cs" by (simp add: u_def)
  ultimately show ?thesis
    using lex_fraction_length [OF f] lex_exponent_length [OF x] by linarith
qed

function lex :: "jsstring \<Rightarrow> token list option" where
  "lex [] = Some []"
| "lex (c # cs) =
     (if json_ws c then lex cs
      else if c = 0x5B then map_option (Cons TLBracket) (lex cs)
      else if c = 0x5D then map_option (Cons TRBracket) (lex cs)
      else if c = 0x7B then map_option (Cons TLBrace) (lex cs)
      else if c = 0x7D then map_option (Cons TRBrace) (lex cs)
      else if c = 0x2C then map_option (Cons TComma) (lex cs)
      else if c = 0x3A then map_option (Cons TColon) (lex cs)
      else if c = 0x22 then
        (case lex_string cs of
           None \<Rightarrow> None
         | Some (s, r) \<Rightarrow> map_option (Cons (TString s)) (lex r))
      else if c = 0x2D \<or> is_digit c then
        (case lex_number (c # cs) of
           None \<Rightarrow> None
         | Some ((m, e), r) \<Rightarrow> map_option (Cons (TNumber m e)) (lex r))
      else if take 4 (c # cs) = ascii ''true'' then map_option (Cons TTrue) (lex (drop 3 cs))
      else if take 5 (c # cs) = ascii ''false'' then map_option (Cons TFalse) (lex (drop 4 cs))
      else if take 4 (c # cs) = ascii ''null'' then map_option (Cons TNull) (lex (drop 3 cs))
      else None)"
  by pat_completeness auto

termination
proof (relation "measure length")
  show "wf (measure length)" by simp
qed (auto dest: lex_string_length lex_number_length)

declare lex.simps [simp del]

datatype frame =
  FArr "json list" | FObj "(jsstring \<times> json) list" | FKey "(jsstring \<times> json) list" jsstring

datatype pmode = PValue | PValueOrClose | PKeyOrClose | PKey | PColon | PAfter | PDone json

type_synonym pconf = "pmode \<times> frame list"

fun close_value :: "json \<Rightarrow> frame list \<Rightarrow> pconf option" where
  "close_value v [] = Some (PDone v, [])"
| "close_value v (FArr vs # st) = Some (PAfter, FArr (vs @ [v]) # st)"
| "close_value v (FKey ms k # st) = Some (PAfter, FObj (ms @ [(k, v)]) # st)"
| "close_value v (FObj ms # st) = None"

fun open_value :: "token \<Rightarrow> frame list \<Rightarrow> pconf option" where
  "open_value TLBracket st = Some (PValueOrClose, FArr [] # st)"
| "open_value TLBrace st = Some (PKeyOrClose, FObj [] # st)"
| "open_value (TString s) st = close_value (JString s) st"
| "open_value (TNumber m e) st = close_value (JNumber m e) st"
| "open_value TTrue st = close_value (JBool True) st"
| "open_value TFalse st = close_value (JBool False) st"
| "open_value TNull st = close_value JNull st"
| "open_value TRBracket st = None"
| "open_value TRBrace st = None"
| "open_value TComma st = None"
| "open_value TColon st = None"

fun pstep :: "pconf \<Rightarrow> token \<Rightarrow> pconf option" where
  "pstep (PValue, st) t = open_value t st"
| "pstep (PValueOrClose, FArr vs # st) t =
     (if t = TRBracket then close_value (JArray vs) st else open_value t (FArr vs # st))"
| "pstep (PKeyOrClose, FObj ms # st) t =
     (case t of
        TRBrace \<Rightarrow> close_value (JObject ms) st
      | TString k \<Rightarrow> Some (PColon, FKey ms k # st)
      | _ \<Rightarrow> None)"
| "pstep (PKey, FObj ms # st) t =
     (case t of TString k \<Rightarrow> Some (PColon, FKey ms k # st) | _ \<Rightarrow> None)"
| "pstep (PColon, st) t = (if t = TColon then Some (PValue, st) else None)"
| "pstep (PAfter, FArr vs # st) t =
     (case t of
        TComma \<Rightarrow> Some (PValue, FArr vs # st)
      | TRBracket \<Rightarrow> close_value (JArray vs) st
      | _ \<Rightarrow> None)"
| "pstep (PAfter, FObj ms # st) t =
     (case t of
        TComma \<Rightarrow> Some (PKey, FObj ms # st)
      | TRBrace \<Rightarrow> close_value (JObject ms) st
      | _ \<Rightarrow> None)"
| "pstep _ t = None"

fun prun :: "pconf \<Rightarrow> token list \<Rightarrow> pconf option" where
  "prun c [] = Some c"
| "prun c (t # ts) = (case pstep c t of None \<Rightarrow> None | Some c' \<Rightarrow> prun c' ts)"

definition JSON_parse :: "jsstring \<Rightarrow> json option" where
  "JSON_parse text =
     (case lex text of
        None \<Rightarrow> None
      | Some ts \<Rightarrow>
          (case prun (PValue, []) ts of
             Some (PDone v, []) \<Rightarrow> Some v
           | _ \<Rightarrow> None))"

text \<open>
  The component hands the parsed value to \<^verbatim>\<open>setPlaylist\<close> unchecked. Its handlers read
  four members of a track: \<^verbatim>\<open>id\<close>, \<^verbatim>\<open>youtubeId\<close>, \<^verbatim>\<open>title\<close> and \<^verbatim>\<open>originalUrl\<close>. A
  JSON value is a playlist of tracks when it is an array of objects that have these four
  members, an integer and three strings, in any order and possibly among other members;
  of several members of the same name \<^verbatim>\<open>JSON.parse\<close> keeps the last. The model keeps
  of each track the four members that the component reads: the order of the members and
  any further member, which no handler reads, are not part of the state.
\<close>

definition json_member :: "jsstring \<Rightarrow> (jsstring \<times> json) list \<Rightarrow> json option" where
  "json_member k ms = map_of (rev ms) k"

definition as_int :: "int \<Rightarrow> int \<Rightarrow> int option" where
  "as_int m e =
     (if 0 \<le> e then Some (m * 10 ^ nat e)
      else if m mod 10 ^ nat (- e) = 0 then Some (m div 10 ^ nat (- e))
      else None)"

fun as_integer :: "json option \<Rightarrow> int option" where
  "as_integer (Some (JNumber m e)) = as_int m e"
| "as_integer _ = None"

fun as_string :: "json option \<Rightarrow> jsstring option" where
  "as_string (Some (JString s)) = Some s"
| "as_string _ = None"

definition as_PlaylistItem :: "json \<Rightarrow> PlaylistItem option" where
  "as_PlaylistItem v =
     (case v of
        JObject ms \<Rightarrow>
          (case as_integer (json_member (ascii ''id'') ms) of
             None \<Rightarrow> None
           | Some i \<Rightarrow>
               (case as_string (json_member (ascii ''youtubeId'') ms) of
                  None \<Rightarrow> None
                | Some y \<Rightarrow>
                    (case as_string (json_member (ascii ''title'') ms) of
                       None \<Rightarrow> None
                     | Some t \<Rightarrow>
                         (case as_string (json_member (ascii ''originalUrl'') ms) of
                            None \<Rightarrow> None
                          | Some u \<Rightarrow>
                              Some \<lparr>item_id = i, youtubeId = y, title = t, originalUrl = u\<rparr>))))
      | _ \<Rightarrow> None)"

fun those_items :: "json list \<Rightarrow> PlaylistItem list option" where
  "those_items [] = Some []"
| "those_items (v # vs) =
     (case as_PlaylistItem v of
        None \<Rightarrow> None
      | Some x \<Rightarrow> map_option (Cons x) (those_items vs))"

definition as_playlist :: "json \<Rightarrow> PlaylistItem list option" where
  "as_playlist v = (case v of JArray vs \<Rightarrow> those_items vs | _ \<Rightarrow> None)"

text \<open>
  \<^verbatim>\<open>JSON.stringify\<close> of a playlist: no white space, the members of each item in the
  order in which \<^verbatim>\<open>addVideo\<close> creates them, strings quoted as the platform quotes them
  (the short escapes, \<^verbatim>\<open>\u\<close> escapes in lower case for the other control characters
  and for a surrogate that is not part of a pair). A track that was loaded from a store
  written by other means is written back by the component with the members it was
  read with; the model writes the four members of its state.
\<close>

definition hex_digit :: "nat \<Rightarrow> jschar" where
  "hex_digit d = (if d < 10 then of_nat (48 + d) else of_nat (87 + d))"

definition unicode_escape :: "jschar \<Rightarrow> jsstring" where
  "unicode_escape c =
     [0x5C, 0x75, hex_digit (unat c div 4096), hex_digit (unat c div 256 mod 16),
      hex_digit (unat c div 16 mod 16), hex_digit (unat c mod 16)]"

definition lead_surrogate :: "jschar \<Rightarrow> bool" where
  "lead_surrogate c = (0xD800 \<le> c \<and> c \<le> 0xDBFF)"

definition trail_surrogate :: "jschar \<Rightarrow> bool" where
  "trail_surrogate c = (0xDC00 \<le> c \<and> c \<le> 0xDFFF)"

fun quote_body :: "jsstring \<Rightarrow> jsstring" where
  "quote_body [] = []"
| "quote_body (c # cs) =
     (if c = 0x08 then [0x5C, 0x62] @ quote_body cs
      else if c = 0x09 then [0x5C, 0x74] @ quote_body cs
      else if c = 0x0A then [0x5C, 0x6E] @ quote_body cs
      else if c = 0x0C then [0x5C, 0x66] @ quote_body cs
      else if c = 0x0D then [0x5C, 0x72] @ quote_body cs
      else if c = 0x22 then [0x5C, 0x22] @ quote_body cs
      else if c = 0x5C then [0x5C, 0x5C] @ quote_body cs
      else if c < 0x20 then unicode_escape c @ quote_body cs
      else if lead_surrogate c then
        (case cs of
           [] \<Rightarrow> unicode_escape c
         | d # ds \<Rightarrow>
             if trail_surrogate d then c # d # quote_body ds
             else unicode_escape c @ quote_body cs)
      else if trail_surrogate c then unicode_escape c @ quote_body cs
      else c # quote_body cs)"

definition QuoteJSONString :: "jsstring \<Rightarrow> jsstring" where
  "QuoteJSONString s = 0x22 # quote_body s @ [0x22]"

definition stringify_item :: "PlaylistItem \<Rightarrow> jsstring" where
  "stringify_item v =
     ascii ''{'' @ QuoteJSONString (ascii ''id'') @ ascii '':'' @ Number_toString (item_id v)
     @ ascii '','' @ QuoteJSONString (ascii ''youtubeId'') @ ascii '':''
     @ QuoteJSONString (youtubeId v)
     @ ascii '','' @ QuoteJSONString (ascii ''title'') @ ascii '':'' @ QuoteJSONString (title v)
     @ ascii '','' @ QuoteJSONString (ascii ''originalUrl'') @ ascii '':''
     @ QuoteJSONString (originalUrl v) @ ascii ''}''"

fun join_comma :: "jsstring list \<Rightarrow> jsstring" where
  "join_comma [] = []"
| "join_comma [x] = x"
| "join_comma (x # y # zs) = x @ ascii '','' @ join_comma (y # zs)"

definition JSON_stringify :: "PlaylistItem list \<Rightarrow> jsstring" where
  "JSON_stringify pl = ascii ''['' @ join_comma (map stringify_item pl) @ ascii '']''"

section \<open>Persistence\<close>

text \<open>
  \<^verbatim>\<open>localStorage\<close> is a map from keys to strings; \<^verbatim>\<open>getItem\<close> of a missing key is
  \<^verbatim>\<open>null\<close>, here \<open>None\<close>. The second effect of the component writes the three entries
  (\<open>save\<close>; a write that the storage refuses is only logged and is not modelled).
\<close>

type_synonym storage = "jsstring \<rightharpoonup> jsstring"

definition LOCAL_STORAGE_KEY :: jsstring where
  "LOCAL_STORAGE_KEY = ascii ''youtube_music_playlist''"

definition LOCAL_STORAGE_CURRENT_INDEX_KEY :: jsstring where
  "LOCAL_STORAGE_CURRENT_INDEX_KEY = ascii ''youtube_music_current_index''"

definition LOCAL_STORAGE_PLAY_MODE_KEY :: jsstring where
  "LOCAL_STORAGE_PLAY_MODE_KEY = ascii ''youtube_music_play_mode''"

fun playMode_string :: "PlayMode \<Rightarrow> jsstring" where
  "playMode_string ModeNone = ascii ''none''"
| "playMode_string RepeatAll = ascii ''repeat-all''"
| "playMode_string Shuffle = ascii ''shuffle''"

definition save :: "player \<Rightarrow> storage \<Rightarrow> storage" where
  "save s st =
     st(LOCAL_STORAGE_KEY \<mapsto> JSON_stringify (playlist s),
        LOCAL_STORAGE_CURRENT_INDEX_KEY \<mapsto>
          (case currentTrackIndex s of Some i \<Rightarrow> Number_toString i | None \<Rightarrow> []),
        LOCAL_STORAGE_PLAY_MODE_KEY \<mapsto> playMode_string (playMode s))"

text \<open>
  The first effect of the component runs once on the freshly mounted state and reads the
  three entries inside one \<^verbatim>\<open>try\<close> block (\<open>load\<close>). When \<^verbatim>\<open>JSON.parse\<close> throws,
  the block is left before any setter has run and the error is logged: the state stays
  the initial one. \<open>load_index\<close> and \<open>load_mode\<close> are the second and the third part of
  the block; \<open>parsed\<close> is the playlist read by the first part, if the entry was there and
  not empty.
\<close>

definition load_index :: "storage \<Rightarrow> PlaylistItem list option \<Rightarrow> player \<Rightarrow> player" where
  "load_index st parsed s =
     (case st LOCAL_STORAGE_CURRENT_INDEX_KEY of
        None \<Rightarrow> s
      | Some savedIndex \<Rightarrow>
          (case parseInt savedIndex of
             None \<Rightarrow> s
           | Some index \<Rightarrow>
               if index \<ge> 0
                  \<and> (case parsed of Some pl \<Rightarrow> int (length pl) > index | None \<Rightarrow> False)
               then s\<lparr>currentTrackIndex := Some index\<rparr>
               else s))"

definition load_mode :: "storage \<Rightarrow> player \<Rightarrow> player" where
  "load_mode st s =
     (case st LOCAL_STORAGE_PLAY_MODE_KEY of
        None \<Rightarrow> s
      | Some savedPlayMode \<Rightarrow>
          if savedPlayMode = playMode_string ModeNone then s\<lparr>playMode := ModeNone\<rparr>
          else if savedPlayMode = playMode_string RepeatAll then s\<lparr>playMode := RepeatAll\<rparr>
          else if savedPlayMode = playMode_string Shuffle then s\<lparr>playMode := Shuffle\<rparr>
          else s)"

text \<open>
  When the playlist text is valid JSON for a value that is no playlist of tracks, the
  component stores the value all the same and the playlist cell leaves its type
  \<^verbatim>\<open>PlaylistItem[]\<close>. \<open>Untyped v i m\<close> is the state after the effect then: the playlist
  cell holds \<open>v\<close>, the position is \<open>i\<close> and the mode \<open>m\<close>. The position is taken when
  \<^verbatim>\<open>JSON.parse(savedPlaylist).length > index\<close>, and \<open>length_exceeds\<close> is this test for a
  position that is not negative: \<^verbatim>\<open>null\<close> has no members and the read throws a
  \<^verbatim>\<open>TypeError\<close>, which leaves the block before the mode is read; a string and an array
  have a length; a boolean, a number and an object without a member \<^verbatim>\<open>length\<close> give
  \<^verbatim>\<open>undefined\<close>, which is not greater than any number. An object with a member
  \<^verbatim>\<open>length\<close> is compared by the platform's conversion of an arbitrary value to a
  number, which is not modelled (\<open>Unmodelled\<close>).
\<close>

datatype comparison = Holds | Fails | Throws | NotModelled

fun length_exceeds :: "json \<Rightarrow> int \<Rightarrow> comparison" where
  "length_exceeds JNull index = Throws"
| "length_exceeds (JBool b) index = Fails"
| "length_exceeds (JNumber m e) index = Fails"
| "length_exceeds (JString str) index = (if int (length str) > index then Holds else Fails)"
| "length_exceeds (JArray vs) index = (if int (length vs) > index then Holds else Fails)"
| "length_exceeds (JObject ms) index =
     (if json_member (ascii ''length'') ms = None then Fails else NotModelled)"

datatype untyped = Untyped json "int option" PlayMode | Unmodelled

definition load_untyped :: "storage \<Rightarrow> json \<Rightarrow> untyped" where
  "load_untyped st v =
     (let mode = playMode (load_mode st initial_player) in
      case st LOCAL_STORAGE_CURRENT_INDEX_KEY of
        None \<Rightarrow> Untyped v None mode
      | Some savedIndex \<Rightarrow>
          (case parseInt savedIndex of
             None \<Rightarrow> Untyped v None mode
           | Some index \<Rightarrow>
               if index \<ge> 0 then
                 (case length_exceeds v index of
                    Holds \<Rightarrow> Untyped v (Some index) mode
                  | Fails \<Rightarrow> Untyped v None mode
                  | Throws \<Rightarrow> Untyped v None ModeNone
                  | NotModelled \<Rightarrow> Unmodelled)
               else Untyped v None mode))"

definition load :: "storage \<Rightarrow> untyped + player" where
  "load st =
     (case st LOCAL_STORAGE_KEY of
        None \<Rightarrow> Inr (load_mode st (load_index st None initial_player))
      | Some savedPlaylist \<Rightarrow>
          if savedPlaylist = [] then Inr (load_mode st (load_index st None initial_player))
          else
            (case JSON_parse savedPlaylist of
               None \<Rightarrow> Inr initial_player
             | Some v \<Rightarrow>
                 (case as_playlist v of
                    None \<Rightarrow> Inl (load_untyped st v)
                  | Some pl \<Rightarrow>
                      Inr (load_mode st
                             (load_index st (Some pl) (initial_player\<lparr>playlist := pl\<rparr>))))))"

section \<open>The specification's field-by-field load\<close>

text \<open>
  The specification describes loading as three independent reads: each field is parsed
  on its own, and a field that is missing, does not parse or does not validate falls back
  to its default (the empty playlist, no position, mode \<^verbatim>\<open>none\<close>) without effect on the
  other two.
\<close>

definition spec_playlist :: "storage \<Rightarrow> PlaylistItem list" where
  "spec_playlist st =
     (case st LOCAL_STORAGE_KEY of
        None \<Rightarrow> []
      | Some saved \<Rightarrow>
          (case JSON_parse saved of
             None \<Rightarrow> []
           | Some v \<Rightarrow> (case as_playlist v of None \<Rightarrow> [] | Some pl \<Rightarrow> pl)))"

definition spec_position :: "storage \<Rightarrow> PlaylistItem list \<Rightarrow> int option" where
  "spec_position st pl =
     (case st LOCAL_STORAGE_CURRENT_INDEX_KEY of
        None \<Rightarrow> None
      | Some saved \<Rightarrow>
          (case parseInt saved of
             None \<Rightarrow> None
           | Some i \<Rightarrow> if 0 \<le> i \<and> i < int (length pl) then Some i else None))"

definition spec_mode :: "storage \<Rightarrow> PlayMode" where
  "spec_mode st =
     (case st LOCAL_STORAGE_PLAY_MODE_KEY of
        None \<Rightarrow> ModeNone
      | Some saved \<Rightarrow>
          if saved = ascii ''repeat-all'' then RepeatAll
          else if saved = ascii ''shuffle'' then Shuffle
          else ModeNone)"

definition spec_index :: "storage \<Rightarrow> int option" where
  "spec_index st =
     (case st LOCAL_STORAGE_CURRENT_INDEX_KEY of
        None \<Rightarrow> None
      | Some saved \<Rightarrow>
          (case parseInt saved of None \<Rightarrow> None | Some i \<Rightarrow> if 0 \<le> i then Some i else None))"

definition spec_load :: "storage \<Rightarrow> player" where
  "spec_load st =
     initial_player
       \<lparr>playlist := spec_playlist st,
        currentTrackIndex := spec_position st (spec_playlist st),
        playMode := spec_mode st\<rparr>"

section \<open>Reachable states\<close>

text \<open>
  The position is valid when it is \<^verbatim>\<open>null\<close> or an index into the playlist. A step is
  one call of a handler of the component; \<open>reachable_in P\<close> are the states reached from
  a loaded state by steps, through states that satisfy \<open>P\<close>.
\<close>

definition position_valid :: "player \<Rightarrow> bool" where
  "position_valid s =
     (case currentTrackIndex s of
        None \<Rightarrow> True
      | Some index \<Rightarrow> 0 \<le> index \<and> index < int (length (playlist s)))"

definition distinct_ids :: "player \<Rightarrow> bool" where
  "distinct_ids s = distinct (map item_id (playlist s))"

inductive step :: "player \<Rightarrow> player \<Rightarrow> bool" where
  add: "addVideo newVideoUrl newVideoTitle now s = Inr s' \<Longrightarrow> step s s'"
| remove: "step s (removeVideo idToRemove s)"
| select: "step s (selectVideo index s)"
| advance: "0 \<le> rnd \<Longrightarrow> rnd < 1 \<Longrightarrow> step s (playNext rnd s)"
| previous: "step s (playPrevious s)"
| toggle: "step s (togglePlayMode s)"
| play: "step s (onPlayerPlay s)"
| pause: "step s (onPlayerPause s)"
| ended: "0 \<le> rnd \<Longrightarrow> rnd < 1 \<Longrightarrow> step s (onPlayerEnd rnd s)"

inductive reachable_in :: "(player \<Rightarrow> bool) \<Rightarrow> player \<Rightarrow> bool" for P where
  loaded: "load st = Inr s \<Longrightarrow> P s \<Longrightarrow> reachable_in P s"
| stepped: "reachable_in P s \<Longrightarrow> step s s' \<Longrightarrow> P s' \<Longrightarrow> reachable_in P s'"

section \<open>Tokens and value of a written playlist\<close>

text \<open>The token sequence and the JSON value of the text that \<open>JSON_stringify\<close> writes.\<close>

definition item_json :: "PlaylistItem \<Rightarrow> json" where
  "item_json v =
     JObject [(ascii ''id'', JNumber (item_id v) 0), (ascii ''youtubeId'', JString (youtubeId v)),
              (ascii ''title'', JString (title v)), (ascii ''originalUrl'', JString (originalUrl v))]"

definition item_tokens :: "PlaylistItem \<Rightarrow> token list" where
  "item_tokens v =
     [TLBrace, TString (ascii ''id''), TColon, TNumber (item_id v) 0, TComma,
      TString (ascii ''youtubeId''), TColon, TString (youtubeId v), TComma,
      TString (ascii ''title''), TColon, TString (title v), TComma,
      TString (ascii ''originalUrl''), TColon, TString (originalUrl v), TRBrace]"

definition playlist_tokens :: "PlaylistItem list \<Rightarrow> token list" where
  "playlist_tokens pl =
     TLBracket #
       (case pl of [] \<Rightarrow> [] | v # vs \<Rightarrow> item_tokens v @ concat (map (\<lambda>v. TComma # item_tokens v) vs))
       @ [TRBracket]"

section \<open>Example states\<close>

text \<open>A playlist of three tracks, used to instantiate the theorems below.\<close>

definition demo_item :: "int \<Rightarrow> PlaylistItem" where
  "demo_item n =
     \<lparr>item_id = n, youtubeId = ascii ''dQw4w9WgXcQ'', title = ascii ''track'',
      originalUrl = ascii ''https://youtu.be/dQw4w9WgXcQ''\<rparr>"

definition demo_player :: "PlayMode \<Rightarrow> int option \<Rightarrow> int list \<Rightarrow> player" where
  "demo_player m c h =
     \<lparr>playlist = [demo_item 1, demo_item 2, demo_item 3], currentTrackIndex = c,
      isPlaying = True, playMode = m, playedIndices = h\<rparr>"






definition duplicate_id_player :: player where
  "duplicate_id_player =
     initial_player\<lparr>playlist := [demo_item 5, demo_item 5], currentTrackIndex := Some 1\<rparr>"

definition twin_player :: player where
  "twin_player =
     \<lparr>playlist = [demo_item 5, demo_item 5], currentTrackIndex = Some 1, isPlaying = True,
      playMode = ModeNone, playedIndices = []\<rparr>"

definition duplicate_id_store :: storage where
  "duplicate_id_store =
     [LOCAL_STORAGE_KEY \<mapsto> JSON_stringify [demo_item 5, demo_item 5],
      LOCAL_STORAGE_CURRENT_INDEX_KEY \<mapsto> ascii ''1'',
      LOCAL_STORAGE_PLAY_MODE_KEY \<mapsto> ascii ''none'']"

section \<open>Properties of the sequencer\<close>

lemma smod_nonneg_int: "0 \<le> a \<Longrightarrow> 0 < b \<Longrightarrow> (a::int) smod b = a mod b"
  by (simp add: smod_int_alt_def sgn_if)

lemma random_index_range:
  assumes "0 \<le> rnd" "rnd < 1" "0 < n"
  shows "0 \<le> random_index rnd n \<and> random_index rnd n < int n"
proof -
  have "0 \<le> rnd * real n" using assms by simp
  moreover have "rnd * real n < real n" using assms by simp
  ultimately show ?thesis
    unfolding random_index_def by (simp add: floor_less_iff)
qed

lemma selectVideo_in_range:
  "0 \<le> i \<Longrightarrow> i < int (length (playlist s)) \<Longrightarrow>
   selectVideo i s = s\<lparr>currentTrackIndex := Some i, isPlaying := True,
          playedIndices := (if playMode s = Shuffle then [i] else playedIndices s)\<rparr>"
  by (simp add: selectVideo_def)

text \<open>
  Claim C2. In shuffle mode, on a playlist that is not empty, every call of
  \<^verbatim>\<open>playNext\<close> leaves a history of exactly one index, the index it has just selected:
  the index that \<^verbatim>\<open>playNext\<close> pushes onto the history is overwritten when
  \<^verbatim>\<open>selectVideo\<close> replaces the history.
\<close>

theorem playNext_shuffle_history:
  assumes "playlist s \<noteq> []" and "playMode s = Shuffle" and "0 \<le> rnd" and "rnd < 1"
  shows "\<exists>i. 0 \<le> i \<and> i < int (length (playlist s))
           \<and> currentTrackIndex (playNext rnd s) = Some i
           \<and> playedIndices (playNext rnd s) = [i]"
proof -
  let ?n = "length (playlist s)"
  let ?av = "filter (\<lambda>i. i \<notin> set (playedIndices s)) (map int [0..<?n])"
  have n: "0 < ?n" using assms(1) by simp
  have step: "playNext rnd s =
      (if length ?av = 0 then
         selectVideo (random_index rnd ?n) (s\<lparr>playedIndices := [random_index rnd ?n]\<rparr>)
       else selectVideo (?av ! nat (random_index rnd (length ?av)))
              (s\<lparr>playedIndices := playedIndices s @ [?av ! nat (random_index rnd (length ?av))]\<rparr>))"
  proof -
    have n0: "(length (playlist s) = 0) = False" using assms(1) by simp
    show ?thesis
      unfolding playNext_def Let_def
      by (simp only: n0 assms(2) if_False if_True simp_thms append_Nil)
  qed
  show ?thesis
  proof (cases "length ?av = 0")
    case True
    let ?i = "random_index rnd ?n"
    have r: "0 \<le> ?i \<and> ?i < int ?n" using random_index_range [OF assms(3,4) n] .
    have "playNext rnd s = selectVideo ?i (s\<lparr>playedIndices := [?i]\<rparr>)"
      using step True by (simp only: if_True simp_thms)
    also have "\<dots> = s\<lparr>currentTrackIndex := Some ?i, isPlaying := True, playedIndices := [?i]\<rparr>"
      using r assms(2) by (simp add: selectVideo_def)
    finally show ?thesis using r by auto
  next
    case False
    let ?k = "nat (random_index rnd (length ?av))"
    let ?i = "?av ! ?k"
    have "0 < length ?av" using False by simp
    from random_index_range [OF assms(3,4) this]
    have k: "?k < length ?av" by linarith
    then have "?i \<in> set ?av" by (rule nth_mem)
    then have r: "0 \<le> ?i \<and> ?i < int ?n" by auto
    have "playNext rnd s = selectVideo ?i (s\<lparr>playedIndices := playedIndices s @ [?i]\<rparr>)"
      using step False by (simp only: if_False simp_thms)
    also have "\<dots> = s\<lparr>currentTrackIndex := Some ?i, isPlaying := True, playedIndices := [?i]\<rparr>"
      using r assms(2) by (simp add: selectVideo_def)
    finally show ?thesis using r by auto
  qed
qed

theorem playNext_shuffle_history_witness:
  "playlist (demo_player Shuffle (Some 0) [0, 1]) \<noteq> []
   \<and> playMode (demo_player Shuffle (Some 0) [0, 1]) = Shuffle
   \<and> (0::real) \<le> 1 / 2 \<and> (1::real) / 2 < 1
   \<and> (\<exists>i. 0 \<le> i \<and> i < int (length (playlist (demo_player Shuffle (Some 0) [0, 1])))
          \<and> currentTrackIndex (playNext (1 / 2) (demo_player Shuffle (Some 0) [0, 1])) = Some i
          \<and> playedIndices (playNext (1 / 2) (demo_player Shuffle (Some 0) [0, 1])) = [i])"
  using playNext_shuffle_history [of "demo_player Shuffle (Some 0) [0, 1]" "1 / 2"]
  by (simp add: demo_player_def)

text \<open>
  Claim C1 says that \<open>N\<close> consecutive calls in shuffle mode, from an empty history,
  visit every index once. On three tracks, with \<^verbatim>\<open>Math.random()\<close> returning 0 each
  time, the three calls select 0, then 1, then 0 again: index 2 is not visited.
\<close>

theorem shuffle_cycle_repeats_index:
  "playNext_trace [0, 0, 0] (demo_player Shuffle None []) = [Some 0, Some 1, Some 0]"
  by (simp add: demo_player_def playNext_def selectVideo_def random_index_def Let_def)

lemma smod_small: "0 \<le> a \<Longrightarrow> a < b \<Longrightarrow> (a::int) smod b = a"
  by (simp add: smod_int_alt_def sgn_if)

lemma smod_self: "0 < b \<Longrightarrow> (b::int) smod b = 0"
  by (simp add: smod_int_alt_def)

lemma playNext_linear_step:
  assumes "playMode s \<noteq> Shuffle" and "currentTrackIndex s = Some (int p)"
    and "Suc p < length (playlist s)"
  shows "playNext rnd s = s\<lparr>currentTrackIndex := Some (int (Suc p)), isPlaying := True\<rparr>"
proof -
  have "(int p + 1) smod int (length (playlist s)) = int p + 1"
    using assms(3) by (intro smod_small) auto
  then show ?thesis
    using assms by (auto simp: playNext_def selectVideo_def Let_def)
qed

lemma playNext_off_last:
  assumes "playMode s = ModeNone" and "currentTrackIndex s = Some (int p)"
    and "Suc p = length (playlist s)" and "1 < length (playlist s)"
  shows "playNext rnd s = s\<lparr>isPlaying := False, currentTrackIndex := None\<rparr>"
proof -
  have "int p + 1 = int (length (playlist s))" using assms(3) by simp
  moreover have "int (length (playlist s)) smod int (length (playlist s)) = 0"
    using assms(4) by (intro smod_self) auto
  ultimately have "(int p + 1) smod int (length (playlist s)) = 0"
    by simp
  then show ?thesis
    using assms by (auto simp: playNext_def Let_def)
qed

lemma playNext_trace_append:
  "playNext_trace (xs @ ys) t = playNext_trace xs t @ playNext_trace ys (playNext_times xs t)"
  by (induction xs arbitrary: t) auto

lemma playNext_times_append:
  "playNext_times (xs @ ys) t = playNext_times ys (playNext_times xs t)"
  by (induction xs arbitrary: t) auto

lemma playNext_linear_run:
  assumes "playMode s \<noteq> Shuffle" and "currentTrackIndex s = Some (int p)"
    and "p + length rnds < length (playlist s)"
  shows "playNext_trace rnds s = map (\<lambda>k. Some (int k)) [Suc p..<Suc (p + length rnds)]
       \<and> currentTrackIndex (playNext_times rnds s) = Some (int (p + length rnds))
       \<and> playMode (playNext_times rnds s) = playMode s
       \<and> playlist (playNext_times rnds s) = playlist s"
  using assms
proof (induction rnds arbitrary: s p)
  case Nil
  then show ?case by simp
next
  case (Cons rnd rnds)
  let ?s = "s\<lparr>currentTrackIndex := Some (int (Suc p)), isPlaying := True\<rparr>"
  have st: "playNext rnd s = ?s"
    using Cons.prems by (intro playNext_linear_step) auto
  have "playMode ?s \<noteq> Shuffle" "currentTrackIndex ?s = Some (int (Suc p))"
    "Suc p + length rnds < length (playlist ?s)"
    using Cons.prems by auto
  note ih = Cons.IH [OF this]
  have "[Suc p..<Suc (p + length (rnd # rnds))] = Suc p # [Suc (Suc p)..<Suc (Suc p + length rnds)]"
    using upt_conv_Cons [of "Suc p" "Suc (Suc (p + length rnds))"] by simp
  then show ?case using ih st by simp
qed

text \<open>
  Claim C4. In mode \<^verbatim>\<open>none\<close> on a playlist of \<open>N > 1\<close> tracks, \<open>N\<close> calls of
  \<^verbatim>\<open>playNext\<close> from position 0 select the positions \<open>1, \<dots>, N - 1\<close> in this order,
  and the \<open>N\<close>-th call clears the position and stops playback. No call made while a
  track is selected moves the position to 0.
\<close>

theorem playNext_off_mode_halts:
  assumes "playMode s = ModeNone" and "1 < length (playlist s)"
  shows "(currentTrackIndex s = Some 0 \<and> length rnds = length (playlist s) \<longrightarrow>
            playNext_trace rnds s =
              map (\<lambda>k. Some (int k)) [1..<length (playlist s)] @ [None]
          \<and> currentTrackIndex (playNext_times rnds s) = None
          \<and> \<not> isPlaying (playNext_times rnds s))
       \<and> (currentTrackIndex s \<noteq> None \<longrightarrow> currentTrackIndex (playNext rnd s) \<noteq> Some 0)"
proof (intro conjI impI)
  assume "currentTrackIndex s \<noteq> None"
  then obtain c where c: "currentTrackIndex s = Some c" by auto
  show "currentTrackIndex (playNext rnd s) \<noteq> Some 0"
  proof (cases "c = 0")
    case True
    with c assms playNext_linear_step [of s 0 rnd] show ?thesis by simp
  next
    case False
    with c assms show ?thesis
      by (simp add: playNext_def selectVideo_def Let_def)
  qed
next
  assume a: "currentTrackIndex s = Some 0 \<and> length rnds = length (playlist s)"
  let ?n = "length (playlist s)"
  obtain front r where rnds: "rnds = front @ [r]" and lf: "Suc (length front) = ?n"
    using a assms(2) by (cases rnds rule: rev_cases) auto
  have run: "playNext_trace front s = map (\<lambda>k. Some (int k)) [Suc 0..<Suc (0 + length front)]
       \<and> currentTrackIndex (playNext_times front s) = Some (int (0 + length front))
       \<and> playMode (playNext_times front s) = playMode s
       \<and> playlist (playNext_times front s) = playlist s"
    using a assms lf by (intro playNext_linear_run) auto
  let ?t = "playNext_times front s"
  have t: "playMode ?t = ModeNone" "currentTrackIndex ?t = Some (int (length front))"
    "playlist ?t = playlist s"
    using run assms by auto
  have last: "playNext r ?t = ?t\<lparr>isPlaying := False, currentTrackIndex := None\<rparr>"
    using t lf assms(2) by (intro playNext_off_last) auto
  show "playNext_trace rnds s = map (\<lambda>k. Some (int k)) [1..<?n] @ [None]"
    using run last lf by (simp add: rnds playNext_trace_append)
  show "currentTrackIndex (playNext_times rnds s) = None"
    using last by (simp add: rnds playNext_times_append)
  show "\<not> isPlaying (playNext_times rnds s)"
    using last by (simp add: rnds playNext_times_append)
qed


theorem playNext_off_mode_halts_witness:
  "playMode (demo_player ModeNone (Some 0) []) = ModeNone
   \<and> 1 < length (playlist (demo_player ModeNone (Some 0) []))
   \<and> currentTrackIndex (demo_player ModeNone (Some 0) []) = Some 0
   \<and> length [0, 0, 0 :: real] = length (playlist (demo_player ModeNone (Some 0) []))
   \<and> playNext_trace [0, 0, 0] (demo_player ModeNone (Some 0) []) =
       map (\<lambda>k. Some (int k)) [1..<length (playlist (demo_player ModeNone (Some 0) []))] @ [None]
   \<and> currentTrackIndex (playNext_times [0, 0, 0] (demo_player ModeNone (Some 0) [])) = None
   \<and> \<not> isPlaying (playNext_times [0, 0, 0] (demo_player ModeNone (Some 0) []))
   \<and> currentTrackIndex (playNext 0 (demo_player ModeNone (Some 0) [])) \<noteq> Some 0"
  using playNext_off_mode_halts [of "demo_player ModeNone (Some 0) []" "[0, 0, 0]" 0]
  by (simp add: demo_player_def)

lemma playNext_repeat_step:
  assumes "playMode s = RepeatAll" and "currentTrackIndex s = Some (int p)"
    and "p < length (playlist s)"
  shows "playNext rnd s =
           s\<lparr>currentTrackIndex := Some (int (Suc p mod length (playlist s))), isPlaying := True\<rparr>"
proof -
  have n: "0 < int (length (playlist s))" using assms(3) by linarith
  have "(int p + 1) smod int (length (playlist s)) = (int p + 1) mod int (length (playlist s))"
    using n by (intro smod_nonneg_int) auto
  also have "\<dots> = int (Suc p mod length (playlist s))"
    by (simp add: zmod_int add.commute)
  finally have e: "(int p + 1) smod int (length (playlist s)) = int (Suc p mod length (playlist s))" .
  have n0: "0 < length (playlist s)" using assms(3) by linarith
  have "Suc p mod length (playlist s) < length (playlist s)"
    using n0 by (rule mod_less_divisor)
  then show ?thesis
    using assms e by (auto simp: playNext_def selectVideo_def Let_def)
qed

lemma playNext_repeat_run:
  assumes "playMode s = RepeatAll" and "currentTrackIndex s = Some (int p)"
    and "p < length (playlist s)"
  shows "playNext_trace rnds s =
           map (\<lambda>k. Some (int ((p + k) mod length (playlist s)))) [1..<Suc (length rnds)]
       \<and> currentTrackIndex (playNext_times rnds s) =
           Some (int ((p + length rnds) mod length (playlist s)))"
  using assms
proof (induction rnds arbitrary: s p)
  case Nil
  then show ?case by simp
next
  case (Cons rnd rnds)
  let ?n = "length (playlist s)"
  let ?s = "s\<lparr>currentTrackIndex := Some (int (Suc p mod ?n)), isPlaying := True\<rparr>"
  have st: "playNext rnd s = ?s"
    using Cons.prems by (intro playNext_repeat_step) auto
  have n0: "0 < ?n" using Cons.prems(3) by linarith
  have "playMode ?s = RepeatAll" "currentTrackIndex ?s = Some (int (Suc p mod ?n))"
    "Suc p mod ?n < length (playlist ?s)"
    using Cons.prems(1) mod_less_divisor [OF n0, of "Suc p"] by auto
  note ih = Cons.IH [OF this]
  have m: "\<And>k. (Suc p mod ?n + k) mod ?n = (p + Suc k) mod ?n"
    by (simp add: mod_add_left_eq)
  have u: "[1..<Suc (length (rnd # rnds))] = 1 # map Suc [1..<Suc (length rnds)]"
    using upt_conv_Cons [of 1 "Suc (Suc (length rnds))"] by (simp add: map_Suc_upt)
  have "playNext_trace (rnd # rnds) s =
          Some (int (Suc p mod ?n)) #
            map (\<lambda>k. Some (int ((Suc p mod ?n + k) mod ?n))) [1..<Suc (length rnds)]"
    using ih st by (simp del: upt_Suc)
  also have "\<dots> = map (\<lambda>k. Some (int ((p + k) mod ?n))) [1..<Suc (length (rnd # rnds))]"
    unfolding u by (simp add: m o_def del: upt_Suc)
  finally have tr: "playNext_trace (rnd # rnds) s =
          map (\<lambda>k. Some (int ((p + k) mod ?n))) [1..<Suc (length (rnd # rnds))]" .
  have "currentTrackIndex (playNext_times (rnd # rnds) s) =
          Some (int ((p + length (rnd # rnds)) mod ?n))"
    using ih st by (simp add: m)
  with tr show ?case by blast
qed

text \<open>
  Claim C6. In mode \<^verbatim>\<open>repeat-all\<close> on a playlist of \<open>N \<ge> 1\<close> tracks, \<open>N\<close> calls of
  \<^verbatim>\<open>playNext\<close> from position 0 come back to position 0 (through the positions
  \<open>k mod N\<close>), and no call clears the position: on a playlist that is not empty the
  position after the call is an index, and on the empty playlist the call changes
  nothing.
\<close>

theorem playNext_repeat_all_loops:
  assumes "playMode s = RepeatAll"
  shows "(playlist s \<noteq> [] \<and> currentTrackIndex s = Some 0 \<and> length rnds = length (playlist s) \<longrightarrow>
            currentTrackIndex (playNext_times rnds s) = Some 0
          \<and> playNext_trace rnds s =
              map (\<lambda>k. Some (int (k mod length (playlist s)))) [1..<Suc (length (playlist s))])
       \<and> (playlist s \<noteq> [] \<longrightarrow> currentTrackIndex (playNext rnd s) \<noteq> None)
       \<and> (playlist s = [] \<longrightarrow> playNext rnd s = s)"
proof (intro conjI impI)
  assume a: "playlist s \<noteq> [] \<and> currentTrackIndex s = Some 0 \<and> length rnds = length (playlist s)"
  have "playNext_trace rnds s =
           map (\<lambda>k. Some (int ((0 + k) mod length (playlist s)))) [1..<Suc (length rnds)]
       \<and> currentTrackIndex (playNext_times rnds s) =
           Some (int ((0 + length rnds) mod length (playlist s)))"
    using a assms by (intro playNext_repeat_run) auto
  then show "currentTrackIndex (playNext_times rnds s) = Some 0"
    and "playNext_trace rnds s =
              map (\<lambda>k. Some (int (k mod length (playlist s)))) [1..<Suc (length (playlist s))]"
    using a by simp_all
next
  assume "playlist s \<noteq> []"
  then show "currentTrackIndex (playNext rnd s) \<noteq> None"
    using assms by (auto simp: playNext_def selectVideo_def Let_def split: option.splits)
next
  assume "playlist s = []"
  then show "playNext rnd s = s" by (simp add: playNext_def)
qed


theorem playNext_repeat_all_loops_witness:
  "playMode (demo_player RepeatAll (Some 0) []) = RepeatAll
   \<and> playlist (demo_player RepeatAll (Some 0) []) \<noteq> []
   \<and> currentTrackIndex (demo_player RepeatAll (Some 0) []) = Some 0
   \<and> length [0, 0, 0 :: real] = length (playlist (demo_player RepeatAll (Some 0) []))
   \<and> currentTrackIndex (playNext_times [0, 0, 0] (demo_player RepeatAll (Some 0) [])) = Some 0
   \<and> currentTrackIndex (playNext 0 (demo_player RepeatAll (Some 0) [])) \<noteq> None"
  using playNext_repeat_all_loops [of "demo_player RepeatAll (Some 0) []" "[0, 0, 0]" 0]
  by (simp add: demo_player_def)

section \<open>Properties of the previous-track command\<close>

text \<open>
  Claim C5 as stated fails twice on the three example tracks. With no track selected
  \<^verbatim>\<open>playPrevious\<close> selects index 0, where the specification's formula gives index 2;
  and in shuffle mode the call replaces the shuffle history, which it leaves alone in
  the other modes.
\<close>

theorem playPrevious_counterexample:
  "currentTrackIndex (playPrevious (demo_player ModeNone None [])) = Some 0
   \<and> spec_prevIndex (currentTrackIndex (demo_player ModeNone None []))
        (length (playlist (demo_player ModeNone None []))) = 2
   \<and> playedIndices (playPrevious (demo_player Shuffle (Some 2) [0, 2])) = [1]
   \<and> playedIndices (playPrevious (demo_player ModeNone (Some 2) [0, 2])) = [0, 2]"
  by (simp add: demo_player_def playPrevious_def selectVideo_def spec_prevIndex_def
      smod_int_alt_def)

text \<open>
  Claim C5, amended. On the empty playlist \<^verbatim>\<open>playPrevious\<close> changes nothing. On a
  playlist of \<open>N \<ge> 1\<close> tracks it selects \<open>(p - 1 + N) mod N\<close> when a valid position
  \<open>p\<close> is selected and index 0 when none is, and marks playback active. The position,
  the playback flag and the playlist after the call do not depend on the play mode;
  the one effect that does is that shuffle mode replaces the shuffle history by the new
  index.
\<close>

theorem playPrevious_position:
  "(playlist s = [] \<longrightarrow> playPrevious s = s)
   \<and> (playlist s \<noteq> [] \<longrightarrow>
        (\<forall>p. currentTrackIndex s = Some p \<and> 0 \<le> p \<and> p < int (length (playlist s)) \<longrightarrow>
           playPrevious s =
             s\<lparr>currentTrackIndex := Some ((p - 1 + int (length (playlist s))) mod int (length (playlist s))),
               isPlaying := True,
               playedIndices :=
                 (if playMode s = Shuffle
                  then [(p - 1 + int (length (playlist s))) mod int (length (playlist s))]
                  else playedIndices s)\<rparr>)
      \<and> (currentTrackIndex s = None \<longrightarrow>
           playPrevious s =
             s\<lparr>currentTrackIndex := Some 0, isPlaying := True,
               playedIndices := (if playMode s = Shuffle then [0] else playedIndices s)\<rparr>))
   \<and> currentTrackIndex (playPrevious (s\<lparr>playMode := m\<rparr>)) = currentTrackIndex (playPrevious s)
   \<and> isPlaying (playPrevious (s\<lparr>playMode := m\<rparr>)) = isPlaying (playPrevious s)
   \<and> playlist (playPrevious (s\<lparr>playMode := m\<rparr>)) = playlist s
   \<and> playMode (playPrevious s) = playMode s"
proof -
  let ?n = "int (length (playlist s))"
  have sel: "(p - 1 + ?n) smod ?n = (p - 1 + ?n) mod ?n
      \<and> 0 \<le> (p - 1 + ?n) mod ?n \<and> (p - 1 + ?n) mod ?n < ?n"
    if "0 \<le> p" "p < ?n" for p
  proof -
    have "0 \<le> p - 1 + ?n" "0 < ?n" using that by linarith+
    then show ?thesis
      using smod_nonneg_int [of "p - 1 + ?n" ?n] pos_mod_sign [of ?n "p - 1 + ?n"]
        pos_mod_bound [of ?n "p - 1 + ?n"] by blast
  qed
  have a: "playlist s = [] \<longrightarrow> playPrevious s = s"
    by (simp add: playPrevious_def)
  have b: "playlist s \<noteq> [] \<longrightarrow>
        (\<forall>p. currentTrackIndex s = Some p \<and> 0 \<le> p \<and> p < ?n \<longrightarrow>
           playPrevious s =
             s\<lparr>currentTrackIndex := Some ((p - 1 + ?n) mod ?n),
               isPlaying := True,
               playedIndices :=
                 (if playMode s = Shuffle then [(p - 1 + ?n) mod ?n] else playedIndices s)\<rparr>)"
    using sel by (auto simp: playPrevious_def selectVideo_def Let_def)
  have c: "playlist s \<noteq> [] \<longrightarrow> currentTrackIndex s = None \<longrightarrow>
           playPrevious s =
             s\<lparr>currentTrackIndex := Some 0, isPlaying := True,
               playedIndices := (if playMode s = Shuffle then [0] else playedIndices s)\<rparr>"
    by (auto simp: playPrevious_def selectVideo_def Let_def)
  have d: "currentTrackIndex (playPrevious (s\<lparr>playMode := m\<rparr>)) = currentTrackIndex (playPrevious s)
   \<and> isPlaying (playPrevious (s\<lparr>playMode := m\<rparr>)) = isPlaying (playPrevious s)
   \<and> playlist (playPrevious (s\<lparr>playMode := m\<rparr>)) = playlist s
   \<and> playMode (playPrevious s) = playMode s"
    by (cases "currentTrackIndex s") (auto simp: playPrevious_def selectVideo_def Let_def)
  from a b c d show ?thesis by blast
qed

section \<open>Properties of removal\<close>

lemma findIndex_range: "findIndex P xs = -1 \<or> (0 \<le> findIndex P xs \<and> findIndex P xs < int (length xs))"
  by (induction xs) (auto simp: Let_def)

lemma findIndex_none: "findIndex P xs = -1 \<longleftrightarrow> (\<forall>x \<in> set xs. \<not> P x)"
proof (induction xs)
  case Nil
  then show ?case by simp
next
  case (Cons x xs)
  then show ?case
    using findIndex_range [of P xs] by (auto simp: Let_def)
qed

lemma findIndex_first:
  "findIndex P xs \<noteq> -1 \<Longrightarrow>
   P (xs ! nat (findIndex P xs)) \<and> (\<forall>j < nat (findIndex P xs). \<not> P (xs ! j))"
proof (induction xs)
  case Nil
  then show ?case by simp
next
  case (Cons x xs)
  show ?case
  proof (cases "P x")
    case True
    then show ?thesis by simp
  next
    case False
    have r: "findIndex P xs \<noteq> -1" using Cons.prems False by (auto simp: Let_def split: if_splits)
    have ge: "0 \<le> findIndex P xs" using findIndex_range [of P xs] r by auto
    have e: "findIndex P (x # xs) = findIndex P xs + 1" using False r by (simp add: Let_def)
    have n: "nat (findIndex P xs + 1) = Suc (nat (findIndex P xs))" using ge by simp
    show ?thesis using Cons.IH [OF r] False
      by (auto simp: e n less_Suc_eq_0_disj simp del: findIndex.simps)
  qed
qed

lemma filter_distinct_remove:
  assumes "distinct (map f xs)" and "i < length xs"
  shows "filter (\<lambda>x. f x \<noteq> f (xs ! i)) xs = take i xs @ drop (Suc i) xs"
  using assms
proof (induction xs arbitrary: i)
  case Nil
  then show ?case by simp
next
  case (Cons x xs)
  show ?case
  proof (cases i)
    case 0
    have "\<forall>y \<in> set xs. f y \<noteq> f x" using Cons.prems(1) by (auto simp: image_iff)
    then have "filter (\<lambda>y. f y \<noteq> f x) xs = xs" by (simp add: filter_id_conv)
    then show ?thesis using 0 by simp
  next
    case (Suc j)
    have j: "j < length xs" using Cons.prems(2) Suc by simp
    then have "xs ! j \<in> set xs" by simp
    then have "f (xs ! j) \<noteq> f x" using Cons.prems(1) by (auto simp: image_iff)
    then show ?thesis using Cons.IH [of j] Cons.prems(1) j Suc by auto
  qed
qed


lemma findIndex_item:
  assumes "findIndex (\<lambda>v. f v = i) xs \<noteq> -1"
  shows "nat (findIndex (\<lambda>v. f v = i) xs) < length xs
       \<and> f (xs ! nat (findIndex (\<lambda>v. f v = i) xs)) = i
       \<and> 0 \<le> findIndex (\<lambda>v. f v = i) xs"
  using findIndex_range [of "\<lambda>v. f v = i" xs] findIndex_first [OF assms] assms
  by auto

text \<open>
  The branch of \<^verbatim>\<open>removeVideo\<close> for \<^verbatim>\<open>currentTrackIndex === indexToRemove\<close>, the index
  that \<^verbatim>\<open>findIndex\<close> returns: if the new playlist is empty the position is cleared and
  playback stops; else if the removed index is still inside the new playlist it stays
  selected and playback is active; else the new last index is selected and playback is
  active. When the identifiers are pairwise distinct the playlist shrinks by one, the
  track now at the kept index is the one that followed the removed track, and the last
  case is the removal of the last element.
\<close>

lemma removeVideo_first_match:
  assumes "findIndex (\<lambda>video. item_id video = i) (playlist s) \<noteq> -1"
    and "currentTrackIndex s = Some (findIndex (\<lambda>video. item_id video = i) (playlist s))"
  shows "(let idx = findIndex (\<lambda>video. item_id video = i) (playlist s);
              newPlaylist = filter (\<lambda>video. item_id video \<noteq> i) (playlist s);
              s' = removeVideo i s
          in playlist s' = newPlaylist
           \<and> (newPlaylist = [] \<longrightarrow> currentTrackIndex s' = None \<and> \<not> isPlaying s')
           \<and> (newPlaylist \<noteq> [] \<and> idx < int (length newPlaylist) \<longrightarrow>
                 currentTrackIndex s' = Some idx \<and> isPlaying s')
           \<and> (newPlaylist \<noteq> [] \<and> \<not> idx < int (length newPlaylist) \<longrightarrow>
                 currentTrackIndex s' = Some (int (length newPlaylist) - 1) \<and> isPlaying s')
           \<and> (distinct (map item_id (playlist s)) \<longrightarrow>
                 Suc (length newPlaylist) = length (playlist s)
               \<and> (idx < int (length newPlaylist) \<longrightarrow>
                     newPlaylist ! nat idx = playlist s ! Suc (nat idx))
               \<and> (\<not> idx < int (length newPlaylist) \<longrightarrow>
                     Suc (nat idx) = length (playlist s))))"
proof -
  let ?idx = "findIndex (\<lambda>video. item_id video = i) (playlist s)"
  let ?new = "filter (\<lambda>video. item_id video \<noteq> i) (playlist s)"
  note fi = findIndex_item [of item_id i "playlist s", OF assms(1)]
  have main: "playlist (removeVideo i s) = ?new
      \<and> (?new = [] \<longrightarrow> currentTrackIndex (removeVideo i s) = None \<and> \<not> isPlaying (removeVideo i s))
      \<and> (?new \<noteq> [] \<and> ?idx < int (length ?new) \<longrightarrow>
            currentTrackIndex (removeVideo i s) = Some ?idx \<and> isPlaying (removeVideo i s))
      \<and> (?new \<noteq> [] \<and> \<not> ?idx < int (length ?new) \<longrightarrow>
            currentTrackIndex (removeVideo i s) = Some (int (length ?new) - 1)
          \<and> isPlaying (removeVideo i s))"
    using assms by (simp add: removeVideo_def Let_def)
  have dist: "Suc (length ?new) = length (playlist s)
      \<and> (?idx < int (length ?new) \<longrightarrow> ?new ! nat ?idx = playlist s ! Suc (nat ?idx))
      \<and> (\<not> ?idx < int (length ?new) \<longrightarrow> Suc (nat ?idx) = length (playlist s))"
    if d: "distinct (map item_id (playlist s))"
  proof -
    let ?k = "nat ?idx"
    have k: "?k < length (playlist s)" and ik: "item_id (playlist s ! ?k) = i" and ge: "0 \<le> ?idx"
      using fi by auto
    have "?new = filter (\<lambda>x. item_id x \<noteq> item_id (playlist s ! ?k)) (playlist s)"
      by (simp add: ik)
    also have "\<dots> = take ?k (playlist s) @ drop (Suc ?k) (playlist s)"
      using d k by (rule filter_distinct_remove)
    finally have new: "?new = take ?k (playlist s) @ drop (Suc ?k) (playlist s)" .
    have len: "Suc (length ?new) = length (playlist s)"
      using k by (simp add: new)
    have "?new ! ?k = playlist s ! Suc ?k" if "?k < length ?new"
    proof -
      have "Suc ?k < length (playlist s)" using that len by linarith
      then show ?thesis
        using k by (simp add: new nth_append min_def)
    qed
    moreover have "Suc ?k = length (playlist s)" if "\<not> ?idx < int (length ?new)"
      using that k len ge by linarith
    ultimately show ?thesis using len ge by auto
  qed
  show ?thesis
    unfolding Let_def using main dist by blast
qed

lemma findIndex_distinct:
  assumes "distinct (map f xs)" and "k < length xs"
  shows "findIndex (\<lambda>v. f v = f (xs ! k)) xs = int k"
proof -
  let ?r = "findIndex (\<lambda>v. f v = f (xs ! k)) xs"
  have "xs ! k \<in> set xs" using assms(2) by simp
  then have n: "?r \<noteq> -1" by (auto simp: findIndex_none)
  note fi = findIndex_item [of f "f (xs ! k)" xs, OF n]
  have "map f xs ! nat ?r = map f xs ! k" using fi assms(2) by simp
  then have "nat ?r = k"
    using assms fi by (simp add: nth_eq_iff_index_eq del: nth_map)
  then show ?thesis using fi by linarith
qed

text \<open>
  Claim C8 as stated fails when the selected track shares its identifier with an earlier
  track. In the state with two tracks of identifier 5, the second one selected and
  playing (the state loaded from the store with the doubled identifier, after its second
  track is selected),
  removing 5 removes the selected track and empties the playlist, but the position
  becomes 0 and playback stays active: the branch for the selected track is taken only
  when the selected index is the first one with the identifier.
\<close>

theorem removeVideo_selected_duplicate:
  "selectVideo 1 duplicate_id_player = twin_player
   \<and> currentTrackIndex twin_player = Some 1
   \<and> item_id (playlist twin_player ! 1) = 5
   \<and> playlist (removeVideo 5 twin_player) = []
   \<and> currentTrackIndex (removeVideo 5 twin_player) = Some 0
   \<and> isPlaying (removeVideo 5 twin_player)"
  by (simp add: twin_player_def duplicate_id_player_def initial_player_def selectVideo_def
      removeVideo_def demo_item_def Let_def)

text \<open>
  Claim C8, amended. In every state whose track identifiers are pairwise distinct and
  in which \<^verbatim>\<open>removeVideo\<close> removes the selected track (the track at the position carries
  the identifier): the playlist loses exactly this track; if it becomes empty the
  position is cleared and playback stops; else if the removed index is still inside the
  new playlist, it stays selected, the track that followed the removed one is now at
  this index, and playback is active; else the selected track was the last element, the
  new last index is selected and playback is active.
\<close>

theorem removeVideo_selected_track:
  assumes "distinct_ids s"
    and "currentTrackIndex s = Some c" and "0 \<le> c" and "c < int (length (playlist s))"
    and "item_id (playlist s ! nat c) = i"
  shows "(let s' = removeVideo i s; newPlaylist = playlist s'
          in newPlaylist = take (nat c) (playlist s) @ drop (Suc (nat c)) (playlist s)
           \<and> (newPlaylist = [] \<longrightarrow> currentTrackIndex s' = None \<and> \<not> isPlaying s')
           \<and> (newPlaylist \<noteq> [] \<and> c < int (length newPlaylist) \<longrightarrow>
                 currentTrackIndex s' = Some c \<and> isPlaying s'
               \<and> newPlaylist ! nat c = playlist s ! Suc (nat c))
           \<and> (newPlaylist \<noteq> [] \<and> \<not> c < int (length newPlaylist) \<longrightarrow>
                 Suc (nat c) = length (playlist s)
               \<and> currentTrackIndex s' = Some (int (length newPlaylist) - 1) \<and> isPlaying s'))"
proof -
  let ?idx = "findIndex (\<lambda>video. item_id video = i) (playlist s)"
  let ?new = "filter (\<lambda>video. item_id video \<noteq> i) (playlist s)"
  have d: "distinct (map item_id (playlist s))" using assms(1) by (simp add: distinct_ids_def)
  have k: "nat c < length (playlist s)" using assms(3,4) by linarith
  have "findIndex (\<lambda>v. item_id v = item_id (playlist s ! nat c)) (playlist s) = int (nat c)"
    using d k by (rule findIndex_distinct)
  then have idx: "?idx = c" using assms(3,5) by simp
  then have n: "?idx \<noteq> -1" and cur: "currentTrackIndex s = Some ?idx"
    using assms(2,3) by simp_all
  note b = removeVideo_first_match [OF n cur, unfolded Let_def idx]
  have "?new = filter (\<lambda>x. item_id x \<noteq> item_id (playlist s ! nat c)) (playlist s)"
    by (simp add: assms(5))
  also have "\<dots> = take (nat c) (playlist s) @ drop (Suc (nat c)) (playlist s)"
    using d k by (rule filter_distinct_remove)
  finally have new: "?new = take (nat c) (playlist s) @ drop (Suc (nat c)) (playlist s)" .
  have pl: "playlist (removeVideo i s) = ?new" using b by (rule conjunct1)
  show ?thesis
    unfolding Let_def pl using b d new by metis
qed

theorem removeVideo_selected_track_witness:
  "distinct_ids (demo_player ModeNone (Some 1) [])
   \<and> currentTrackIndex (demo_player ModeNone (Some 1) []) = Some 1
   \<and> item_id (playlist (demo_player ModeNone (Some 1) []) ! nat 1) = 2
   \<and> playlist (removeVideo 2 (demo_player ModeNone (Some 1) [])) = [demo_item 1, demo_item 3]
   \<and> currentTrackIndex (removeVideo 2 (demo_player ModeNone (Some 1) [])) = Some 1
   \<and> isPlaying (removeVideo 2 (demo_player ModeNone (Some 1) []))"
  using removeVideo_selected_track [where s = "demo_player ModeNone (Some 1) []" and c = 1 and i = 2]
  by (simp add: demo_player_def demo_item_def distinct_ids_def Let_def)

theorem playPrevious_position_witness:
  "playlist (demo_player Shuffle (Some 0) [0]) \<noteq> []
   \<and> currentTrackIndex (demo_player Shuffle (Some 0) [0]) = Some 0
   \<and> (0::int) \<le> 0 \<and> 0 < int (length (playlist (demo_player Shuffle (Some 0) [0])))
   \<and> currentTrackIndex (playPrevious (demo_player Shuffle (Some 0) [0])) = Some 2
   \<and> playedIndices (playPrevious (demo_player Shuffle (Some 0) [0])) = [2]
   \<and> currentTrackIndex (playPrevious (demo_player ModeNone None [])) = Some 0"
  using playPrevious_position [of "demo_player Shuffle (Some 0) [0]" ModeNone]
    playPrevious_position [of "demo_player ModeNone None []" ModeNone]
  by (simp add: demo_player_def)

section \<open>Properties of the URL parser\<close>

lemma rmatch_lit:
  "rmatch (lit s) k (cap, cs) =
     (if take (length s) cs = ascii s then k (cap, drop (length s) cs) else None)"
proof (induction s arbitrary: cs)
  case Nil
  then show ?case by (simp add: lit_def ascii_def)
next
  case (Cons c s)
  have l: "lit (c # s) = Seq (Char (Lit (of_char c))) (lit s)" by (simp add: lit_def)
  show ?case
  proof (cases cs)
    case Nil
    then show ?thesis by (simp add: l ascii_def)
  next
    case (Cons d ds)
    then show ?thesis using Cons.IH [of ds] by (auto simp: l ascii_def)
  qed
qed

lemma star_greedy_total:
  assumes "\<And>r. k r \<noteq> None"
  shows "star_greedy cc k cs = k (dropWhile (cc_matches cc) cs)"
proof (induction cs)
  case Nil
  then show ?case by simp
next
  case (Cons c cs)
  then show ?case using assms [of "dropWhile (cc_matches cc) cs"]
    by (auto split: option.splits)
qed

lemma star_greedy_None:
  "star_greedy cc k cs = None \<longleftrightarrow>
     (\<forall>n \<le> length (takeWhile (cc_matches cc) cs). k (drop n cs) = None)"
proof (induction cs)
  case Nil
  then show ?case by simp
next
  case (Cons c cs)
  show ?case
  proof (cases "cc_matches cc c")
    case False
    then show ?thesis by simp
  next
    case True
    have "(\<forall>n \<le> Suc (length (takeWhile (cc_matches cc) cs)). k (drop n (c # cs)) = None) \<longleftrightarrow>
          k (c # cs) = None \<and> (\<forall>n \<le> length (takeWhile (cc_matches cc) cs). k (drop n cs) = None)"
      (is "?L \<longleftrightarrow> ?R")
    proof
      assume l: ?L
      have "k (drop 0 (c # cs)) = None" using l by blast
      moreover have "k (drop n cs) = None" if "n \<le> length (takeWhile (cc_matches cc) cs)" for n
        using l [rule_format, of "Suc n"] that by simp
      ultimately show ?R by simp
    next
      assume r: ?R
      show ?L
      proof (intro allI impI)
        fix n assume "n \<le> Suc (length (takeWhile (cc_matches cc) cs))"
        then show "k (drop n (c # cs)) = None" using r by (cases n) auto
      qed
    qed
    then show ?thesis using True Cons.IH by (auto split: option.splits)
  qed
qed

lemma star_greedy_Some:
  "star_greedy cc k cs = Some r \<longleftrightarrow>
     (\<exists>n \<le> length (takeWhile (cc_matches cc) cs).
        k (drop n cs) = Some r
        \<and> (\<forall>m. n < m \<and> m \<le> length (takeWhile (cc_matches cc) cs) \<longrightarrow> k (drop m cs) = None))"
proof (induction cs arbitrary: r)
  case Nil
  then show ?case by simp
next
  case (Cons c cs)
  let ?t = "length (takeWhile (cc_matches cc) cs)"
  show ?case
  proof (cases "cc_matches cc c")
    case False
    then show ?thesis by simp
  next
    case True
    then have len: "length (takeWhile (cc_matches cc) (c # cs)) = Suc ?t" by simp
    show ?thesis
    proof (cases "star_greedy cc k cs")
      case (Some r')
      then obtain n where n: "n \<le> ?t" "k (drop n cs) = Some r'"
        "\<And>m. n < m \<Longrightarrow> m \<le> ?t \<Longrightarrow> k (drop m cs) = None"
        using Cons.IH [of r'] by auto
      have lhs: "star_greedy cc k (c # cs) = Some r \<longleftrightarrow> r' = r"
        using True Some by auto
      have "(\<exists>j \<le> Suc ?t. k (drop j (c # cs)) = Some r
              \<and> (\<forall>m. j < m \<and> m \<le> Suc ?t \<longrightarrow> k (drop m (c # cs)) = None)) \<longleftrightarrow> r' = r"
        (is "?R \<longleftrightarrow> _")
      proof
        assume "r' = r"
        have "k (drop m (c # cs)) = None" if "Suc n < m" "m \<le> Suc ?t" for m
          using that n(3) [of "m - 1"] by (cases m) auto
        then show ?R using n(1,2) \<open>r' = r\<close> by (intro exI [of _ "Suc n"]) auto
      next
        assume ?R
        then obtain j where j: "j \<le> Suc ?t" "k (drop j (c # cs)) = Some r"
          "\<And>m. j < m \<Longrightarrow> m \<le> Suc ?t \<Longrightarrow> k (drop m (c # cs)) = None" by blast
        have "\<not> j < Suc n"
        proof
          assume "j < Suc n"
          then have "k (drop (Suc n) (c # cs)) = None" using j(3) [of "Suc n"] n(1) by simp
          then show False using n(2) by simp
        qed
        moreover have "\<not> Suc n < j"
        proof
          assume a: "Suc n < j"
          then obtain j' where j': "j = Suc j'" by (cases j) auto
          then have "k (drop j' cs) = None" using n(3) [of j'] a j(1) by simp
          then show False using j(2) j' by simp
        qed
        ultimately have "j = Suc n" by simp
        then show "r' = r" using j(2) n(2) by simp
      qed
      then show ?thesis unfolding len lhs by simp
    next
      case None
      then have none: "\<And>n. n \<le> ?t \<Longrightarrow> k (drop n cs) = None"
        by (simp add: star_greedy_None)
      have lhs: "star_greedy cc k (c # cs) = Some r \<longleftrightarrow> k (c # cs) = Some r"
        using True None by auto
      have "(\<exists>j \<le> Suc ?t. k (drop j (c # cs)) = Some r
              \<and> (\<forall>m. j < m \<and> m \<le> Suc ?t \<longrightarrow> k (drop m (c # cs)) = None))
            \<longleftrightarrow> k (c # cs) = Some r"
        (is "?R \<longleftrightarrow> _")
      proof
        assume "k (c # cs) = Some r"
        moreover have "k (drop m (c # cs)) = None" if "0 < m" "m \<le> Suc ?t" for m
          using that none [of "m - 1"] by (cases m) auto
        ultimately show ?R by (intro exI [of _ 0]) auto
      next
        assume ?R
        then obtain j where j: "j \<le> Suc ?t" "k (drop j (c # cs)) = Some r" by blast
        show "k (c # cs) = Some r"
        proof (cases j)
          case 0
          then show ?thesis using j(2) by simp
        next
          case (Suc j')
          then show ?thesis using j none [of j'] by simp
        qed
      qed
      then show ?thesis unfolding len lhs by simp
    qed
  qed
qed

lemma rmatch_any:
  "rmatch (Char AnyChar) k (cap, cs) =
     (case cs of [] \<Rightarrow> None | c # cs' \<Rightarrow> if \<not> line_terminator c then k (cap, cs') else None)"
  by (cases cs) auto

lemma take_length_dropWhile:
  "take (length r - length (dropWhile P r)) r = takeWhile P r"
proof -
  have "length r = length (takeWhile P r) + length (dropWhile P r)"
    by (metis length_append takeWhile_dropWhile_id)
  then have "length r - length (dropWhile P r) = length (takeWhile P r)" by simp
  then show ?thesis by (simp add: takeWhile_eq_take [symmetric])
qed

lemma rmatch_group_tail:
  "rmatch (Seq (Group (Star (NoneOf ds))) (Star AnyChar)) (\<lambda>(cap, rest). Some cap) (cap, r) =
     Some (Some (takeWhile (\<lambda>c. c \<notin> set ds) r))"
proof -
  have tail: "star_greedy AnyChar (\<lambda>rest. Some x) cs = Some x" for x :: "jsstring option" and cs
    by (subst star_greedy_total) auto
  have "rmatch (Seq (Group (Star (NoneOf ds))) (Star AnyChar)) (\<lambda>(cap, rest). Some cap) (cap, r) =
        star_greedy (NoneOf ds) (\<lambda>rest. Some (Some (take (length r - length rest) r))) r"
    by (simp add: tail)
  also have "\<dots> = Some (Some (take (length r - length (dropWhile (cc_matches (NoneOf ds)) r)) r))"
    by (subst star_greedy_total) auto
  also have "cc_matches (NoneOf ds) = (\<lambda>c. c \<notin> set ds)" by (rule ext) simp
  finally show ?thesis by (simp add: take_length_dropWhile)
qed

lemma rmatch_lit_rest:
  "rmatch (lit s) k (cap, cs) = (case lit_rest s cs of None \<Rightarrow> None | Some r \<Rightarrow> k (cap, r))"
  by (simp add: rmatch_lit lit_rest_def)

lemma rmatch_short_link:
  "rmatch (Seq (lit ''youtu'') (Seq (Char AnyChar) (lit ''be/''))) k (cap, cs) =
     (case short_link_rest cs of None \<Rightarrow> None | Some r \<Rightarrow> k (cap, r))"
proof (cases "lit_rest ''youtu'' cs")
  case None
  then show ?thesis by (simp add: rmatch_lit_rest short_link_rest_def)
next
  case (Some r)
  then show ?thesis
    by (cases r) (simp_all add: rmatch_lit_rest short_link_rest_def)
qed

lemma rmatch_alt_total:
  assumes "\<And>st. k st \<noteq> None"
    and "rmatch r1 k (cap, cs) = (case m1 of None \<Rightarrow> None | Some r \<Rightarrow> k (cap, r))"
    and "rmatch r2 k (cap, cs) = (case m2 of None \<Rightarrow> None | Some r \<Rightarrow> k (cap, r))"
  shows "rmatch (Alt r1 r2) k (cap, cs) =
           (case orelse m1 m2 of None \<Rightarrow> None | Some r \<Rightarrow> k (cap, r))"
proof (cases m1)
  case None
  then show ?thesis using assms(2,3) by (simp add: orelse_def)
next
  case (Some r)
  then show ?thesis using assms(1) [of "(cap, r)"] assms(2) by (auto simp: orelse_def)
qed

lemma after_star_eq:
  "after_star (cap, cs) =
     (case link_rest cs of
        None \<Rightarrow> None
      | Some r \<Rightarrow> Some (Some (takeWhile (\<lambda>c. c \<notin> set (ascii ''#&?'')) r)))"
proof -
  let ?k = "\<lambda>(cap :: jsstring option, r). Some (Some (takeWhile (\<lambda>c. c \<notin> set (ascii ''#&?'')) r))"
  have k: "rmatch (Seq (Group (Star (NoneOf ds))) (Star AnyChar)) (\<lambda>(cap, rest). Some cap) =
      (\<lambda>(cap, r). Some (Some (takeWhile (\<lambda>c. c \<notin> set ds) r)))" for ds
  proof (rule ext)
    fix x :: mstate
    obtain c r where x: "x = (c, r)" by (cases x)
    show "rmatch (Seq (Group (Star (NoneOf ds))) (Star AnyChar)) (\<lambda>(cap, rest). Some cap) x =
      (\<lambda>(cap, r). Some (Some (takeWhile (\<lambda>c. c \<notin> set ds) r))) x"
      unfolding x by (simp only: rmatch_group_tail prod.case)
  qed
  have tot: "\<And>st. ?k st \<noteq> None" by (simp add: split_beta)
  have "rmatch (Alt (Seq (lit ''youtu'') (Seq (Char AnyChar) (lit ''be/'')))
           (Alt (lit ''v/'')
           (Alt (lit ''e/'')
           (Alt (lit ''embed/'')
           (Alt (lit ''watch?v='')
                (lit ''watch?feature=player_embedded&v='')))))) ?k (cap, cs) =
        (case link_rest cs of None \<Rightarrow> None | Some r \<Rightarrow> ?k (cap, r))"
    unfolding link_rest_def
    by (intro rmatch_alt_total tot rmatch_short_link rmatch_lit_rest)
  then show ?thesis
    unfolding after_star_def rmatch.simps(5) [of "Alt x y" for x y] k
    by (simp only: prod.case)
qed

lemma length_ascii: "length (ascii s) = length s"
  by (simp add: ascii_def)

lemma lit_rest_iff: "lit_rest s cs = Some r \<longleftrightarrow> cs = ascii s @ r"
proof
  assume "lit_rest s cs = Some r"
  then have "take (length s) cs = ascii s" "drop (length s) cs = r"
    by (auto simp: lit_rest_def split: if_splits)
  then show "cs = ascii s @ r" using append_take_drop_id [of "length s" cs] by simp
next
  assume "cs = ascii s @ r"
  then show "lit_rest s cs = Some r" by (simp add: lit_rest_def length_ascii)
qed

lemma short_link_rest_iff:
  "short_link_rest cs = Some r \<longleftrightarrow>
     (\<exists>c. \<not> line_terminator c \<and> cs = ascii ''youtu'' @ c # ascii ''be/'' @ r)"
proof
  assume a: "short_link_rest cs = Some r"
  then obtain c cs' where 1: "lit_rest ''youtu'' cs = Some (c # cs')"
    and 2: "\<not> line_terminator c" and 3: "lit_rest ''be/'' cs' = Some r"
    by (auto simp: short_link_rest_def split: option.splits list.splits if_splits)
  from 1 3 have "cs = ascii ''youtu'' @ c # ascii ''be/'' @ r"
    by (simp only: lit_rest_iff)
  with 2 show "\<exists>c. \<not> line_terminator c \<and> cs = ascii ''youtu'' @ c # ascii ''be/'' @ r"
    by blast
next
  assume "\<exists>c. \<not> line_terminator c \<and> cs = ascii ''youtu'' @ c # ascii ''be/'' @ r"
  then obtain c where c: "\<not> line_terminator c" "cs = ascii ''youtu'' @ c # ascii ''be/'' @ r"
    by blast
  have 1: "lit_rest ''youtu'' cs = Some (c # ascii ''be/'' @ r)"
    using c(2) by (simp only: lit_rest_iff)
  have 2: "lit_rest ''be/'' (ascii ''be/'' @ r) = Some r"
    by (simp only: lit_rest_iff)
  show "short_link_rest cs = Some r"
    using c(1) by (simp add: short_link_rest_def 1 2)
qed

lemma link_prefix_iff:
  "link_prefix p \<longleftrightarrow>
     (\<exists>c. \<not> line_terminator c \<and> p = ascii ''youtu'' @ c # ascii ''be/'')
     \<or> p = ascii ''v/'' \<or> p = ascii ''e/'' \<or> p = ascii ''embed/'' \<or> p = ascii ''watch?v=''
     \<or> p = ascii ''watch?feature=player_embedded&v=''"
proof -
  have "(length p = 9 \<and> take 5 p = ascii ''youtu'' \<and> \<not> line_terminator (p ! 5)
        \<and> drop 6 p = ascii ''be/'') \<longleftrightarrow>
        (\<exists>c. \<not> line_terminator c \<and> p = ascii ''youtu'' @ c # ascii ''be/'')"
    (is "?L \<longleftrightarrow> ?R")
  proof
    assume l: ?L
    then have "5 < length p" by simp
    then have "p ! 5 # drop (Suc 5) p = drop 5 p" by (rule Cons_nth_drop_Suc)
    then have "drop 5 p = p ! 5 # drop 6 p" by simp
    then have "p = take 5 p @ p ! 5 # drop 6 p"
      using append_take_drop_id [of 5 p] by simp
    then have "p = ascii ''youtu'' @ p ! 5 # ascii ''be/''" using l by simp
    then show ?R using l by blast
  next
    assume ?R
    then show ?L by (auto simp: ascii_def)
  qed
  then show ?thesis by (auto simp: link_prefix_def)
qed

lemma orelse_Some_iff: "orelse a b = Some r \<longleftrightarrow> a = Some r \<or> (a = None \<and> b = Some r)"
  by (cases a) (auto simp: orelse_def)

lemma orelse_None_iff: "orelse a b = None \<longleftrightarrow> a = None \<and> b = None"
  by (cases a) (auto simp: orelse_def)

lemma link_rest_SomeD:
  assumes "link_rest cs = Some r"
  shows "\<exists>p. link_prefix p \<and> cs = p @ r"
proof -
  from assms consider
      "short_link_rest cs = Some r"
    | s where "lit_rest s cs = Some r"
        "s \<in> {''v/'', ''e/'', ''embed/'', ''watch?v='', ''watch?feature=player_embedded&v=''}"
    unfolding link_rest_def orelse_Some_iff by blast
  then show ?thesis
  proof cases
    case 1
    then obtain c where "\<not> line_terminator c" "cs = (ascii ''youtu'' @ c # ascii ''be/'') @ r"
      unfolding short_link_rest_iff by auto
    then show ?thesis using link_prefix_iff by blast
  next
    case 2
    then have "cs = ascii s @ r" by (simp only: lit_rest_iff)
    moreover have "link_prefix (ascii s)" using 2(2) unfolding link_prefix_iff by blast
    ultimately show ?thesis by blast
  qed
qed

lemma lit_rest_simps:
  "lit_rest [] cs = Some cs"
  "lit_rest (c # s) [] = None"
  "lit_rest (c # s) (d # cs) = (if d = of_char c then lit_rest s cs else None)"
  by (auto simp: lit_rest_def ascii_def)

lemma link_rest_prefix:
  assumes "link_prefix p"
  shows "link_rest (p @ r) = Some r"
proof -
  from assms consider
      c where "\<not> line_terminator c" "p = ascii ''youtu'' @ c # ascii ''be/''"
    | "p = ascii ''v/''" | "p = ascii ''e/''" | "p = ascii ''embed/''" | "p = ascii ''watch?v=''"
    | "p = ascii ''watch?feature=player_embedded&v=''"
    unfolding link_prefix_iff by blast
  then show ?thesis
  proof cases
    case 1
    then show ?thesis
      by (simp add: link_rest_def short_link_rest_def orelse_def lit_rest_simps ascii_def)
  next
    case 2
    then show ?thesis
      by (simp add: link_rest_def short_link_rest_def orelse_def lit_rest_simps ascii_def)
  next
    case 3
    then show ?thesis
      by (simp add: link_rest_def short_link_rest_def orelse_def lit_rest_simps ascii_def)
  next
    case 4
    then show ?thesis
      by (simp add: link_rest_def short_link_rest_def orelse_def lit_rest_simps ascii_def)
  next
    case 5
    then show ?thesis
      by (simp add: link_rest_def short_link_rest_def orelse_def lit_rest_simps ascii_def)
  next
    case 6
    then show ?thesis
      by (simp add: link_rest_def short_link_rest_def orelse_def lit_rest_simps ascii_def)
  qed
qed

lemma link_rest_iff: "link_rest cs = Some r \<longleftrightarrow> (\<exists>p. link_prefix p \<and> cs = p @ r)"
  using link_rest_SomeD link_rest_prefix by blast

lemma le_length_takeWhile_iff:
  "n \<le> length (takeWhile P xs) \<longleftrightarrow> n \<le> length xs \<and> (\<forall>c \<in> set (take n xs). P c)"
proof (induction xs arbitrary: n)
  case Nil
  then show ?case by simp
next
  case (Cons x xs)
  then show ?case by (cases n) auto
qed

lemma takeWhile_eq_iff:
  "takeWhile Q r = seg \<longleftrightarrow>
     (\<exists>rest. r = seg @ rest \<and> (\<forall>c \<in> set seg. Q c) \<and> (rest = [] \<or> \<not> Q (hd rest)))"
proof
  assume a: "takeWhile Q r = seg"
  have "r = seg @ dropWhile Q r" using a takeWhile_dropWhile_id [of Q r] by simp
  moreover have "\<forall>c \<in> set seg. Q c" using a set_takeWhileD by fastforce
  moreover have "dropWhile Q r = [] \<or> \<not> Q (hd (dropWhile Q r))"
    using hd_dropWhile [of Q r] by blast
  ultimately show "\<exists>rest. r = seg @ rest \<and> (\<forall>c \<in> set seg. Q c) \<and> (rest = [] \<or> \<not> Q (hd rest))"
    by blast
next
  assume "\<exists>rest. r = seg @ rest \<and> (\<forall>c \<in> set seg. Q c) \<and> (rest = [] \<or> \<not> Q (hd rest))"
  then obtain rest where r: "r = seg @ rest" "\<forall>c \<in> set seg. Q c" "rest = [] \<or> \<not> Q (hd rest)"
    by blast
  have "takeWhile Q rest = []" using r(3) by (cases rest) auto
  then show "takeWhile Q r = seg" using r(1,2) by (simp add: takeWhile_append2)
qed

lemma regex_match_regExp:
  "regex_match regExp url = star_greedy AnyChar (\<lambda>rest. after_star (None, rest)) url"
  by (simp add: regex_match_def regExp_def after_star_def)

lemma after_star_Some_iff:
  "after_star (cap, cs) = Some (Some seg) \<longleftrightarrow>
     (\<exists>r. link_rest cs = Some r \<and> takeWhile (\<lambda>c. \<not> id_delimiter c) r = seg)"
  by (auto simp: after_star_eq id_delimiter_def split: option.splits)

lemma after_star_None_iff: "after_star (cap, cs) = None \<longleftrightarrow> link_rest cs = None"
  by (auto simp: after_star_eq split: option.splits)

lemma after_star_group: "after_star (cap, cs) \<noteq> Some None"
  by (auto simp: after_star_eq split: option.splits)

lemma extractVideoId_star:
  "extractVideoId url = Some seg \<longleftrightarrow>
     star_greedy AnyChar (\<lambda>rest. after_star (None, rest)) url = Some (Some seg) \<and> length seg = 11"
  by (auto simp: extractVideoId_def regex_match_regExp split: option.splits)

text \<open>
  Claim C10. \<^verbatim>\<open>extractVideoId\<close> returns a segment exactly when the URL matches the
  expression with that segment captured and the segment has 11 code units. Matching
  with the segment captured means: the URL is a prefix free of line terminators, then one
  of the link texts, then the segment, then the rest, where the segment has no
  \<^verbatim>\<open>#\<close>, \<^verbatim>\<open>&\<close> or \<^verbatim>\<open>?\<close> and is followed by one of them or by the end of the
  input; and, the leading star being greedy, no link text starts later in the first
  line. In every other case the result is \<^verbatim>\<open>null\<close>. The function is a function of
  the URL alone.
\<close>

theorem extractVideoId_iff:
  "extractVideoId url = Some seg \<longleftrightarrow>
     (\<exists>pre p rest.
         url = pre @ p @ seg @ rest
       \<and> (\<forall>c \<in> set pre. \<not> line_terminator c)
       \<and> link_prefix p
       \<and> (\<forall>c \<in> set seg. \<not> id_delimiter c)
       \<and> (rest = [] \<or> id_delimiter (hd rest))
       \<and> (\<forall>pre' p' rest'.
             url = pre' @ p' @ rest' \<and> (\<forall>c \<in> set pre'. \<not> line_terminator c) \<and> link_prefix p'
             \<longrightarrow> length pre' \<le> length pre)
       \<and> length seg = 11)"
  (is "?L \<longleftrightarrow> ?R")
proof
  let ?T = "length (takeWhile (cc_matches AnyChar) url)"
  assume ?L
  then have len: "length seg = 11"
    and "star_greedy AnyChar (\<lambda>rest. after_star (None, rest)) url = Some (Some seg)"
    by (simp_all add: extractVideoId_star)
  then obtain n where n: "n \<le> ?T" "after_star (None, drop n url) = Some (Some seg)"
    "\<And>m. n < m \<Longrightarrow> m \<le> ?T \<Longrightarrow> after_star (None, drop m url) = None"
    unfolding star_greedy_Some by blast
  from n(2) obtain r where r: "link_rest (drop n url) = Some r"
    "takeWhile (\<lambda>c. \<not> id_delimiter c) r = seg"
    unfolding after_star_Some_iff by blast
  from r(1) obtain p where p: "link_prefix p" "drop n url = p @ r"
    unfolding link_rest_iff by blast
  from r(2) obtain rest where rest: "r = seg @ rest" "\<forall>c \<in> set seg. \<not> id_delimiter c"
    "rest = [] \<or> id_delimiter (hd rest)"
    unfolding takeWhile_eq_iff by auto
  have nl: "n \<le> length url" and pre: "\<forall>c \<in> set (take n url). \<not> line_terminator c"
    using n(1) unfolding le_length_takeWhile_iff by auto
  have url: "url = take n url @ p @ seg @ rest"
    using append_take_drop_id [of n url] p(2) rest(1) by simp
  have greedy: "length pre' \<le> length (take n url)"
    if "url = pre' @ p' @ rest'" "\<forall>c \<in> set pre'. \<not> line_terminator c" "link_prefix p'"
    for pre' p' rest'
  proof (rule ccontr)
    assume "\<not> length pre' \<le> length (take n url)"
    then have lt: "n < length pre'" using nl by simp
    have "length pre' \<le> ?T"
      unfolding le_length_takeWhile_iff using that(1,2) by simp
    then have "after_star (None, drop (length pre') url) = None" using n(3) lt by blast
    then have "link_rest (drop (length pre') url) = None" by (simp only: after_star_None_iff)
    moreover have "drop (length pre') url = p' @ rest'" using that(1) by simp
    ultimately show False using link_rest_prefix [OF that(3), of rest'] by simp
  qed
  have g: "\<forall>pre' p' rest'.
             url = pre' @ p' @ rest' \<and> (\<forall>c \<in> set pre'. \<not> line_terminator c) \<and> link_prefix p'
             \<longrightarrow> length pre' \<le> length (take n url)"
    using greedy by blast
  show ?R
    apply (rule exI [of _ "take n url"], rule exI [of _ p], rule exI [of _ rest])
    apply (intro conjI)
          apply (rule url)
         apply (rule pre)
        apply (rule p(1))
       apply (rule rest(2))
      apply (rule rest(3))
     apply (rule g)
    apply (rule len)
    done
next
  let ?T = "length (takeWhile (cc_matches AnyChar) url)"
  assume ?R
  then obtain pre p rest where R: "url = pre @ p @ seg @ rest
       \<and> (\<forall>c \<in> set pre. \<not> line_terminator c)
       \<and> link_prefix p
       \<and> (\<forall>c \<in> set seg. \<not> id_delimiter c)
       \<and> (rest = [] \<or> id_delimiter (hd rest))
       \<and> (\<forall>pre' p' rest'.
             url = pre' @ p' @ rest' \<and> (\<forall>c \<in> set pre'. \<not> line_terminator c) \<and> link_prefix p'
             \<longrightarrow> length pre' \<le> length pre)
       \<and> length seg = 11"
    by (elim exE)
  then have d: "url = pre @ p @ seg @ rest"
    "\<forall>c \<in> set pre. \<not> line_terminator c" "link_prefix p"
    "\<forall>c \<in> set seg. \<not> id_delimiter c" "rest = [] \<or> id_delimiter (hd rest)"
    "length seg = 11"
    by simp_all
  have d6: "length pre' \<le> length pre"
    if "url = pre' @ p' @ rest'" "\<forall>c \<in> set pre'. \<not> line_terminator c" "link_prefix p'"
    for pre' p' rest'
    using R that by blast
  let ?n = "length pre"
  have 1: "?n \<le> ?T"
    unfolding le_length_takeWhile_iff using d(1,2) by simp
  have dr: "drop ?n url = p @ seg @ rest" using d(1) by simp
  have "takeWhile (\<lambda>c. \<not> id_delimiter c) (seg @ rest) = seg"
    unfolding takeWhile_eq_iff using d(4,5) by auto
  then have 2: "after_star (None, drop ?n url) = Some (Some seg)"
    unfolding after_star_Some_iff dr using link_rest_prefix [OF d(3), of "seg @ rest"] by simp
  have 3: "after_star (None, drop m url) = None" if "?n < m" "m \<le> ?T" for m
  proof (rule ccontr)
    assume "after_star (None, drop m url) \<noteq> None"
    then obtain r' where "link_rest (drop m url) = Some r'"
      unfolding after_star_None_iff by auto
    then obtain p' where p': "link_prefix p'" "drop m url = p' @ r'"
      unfolding link_rest_iff by blast
    have ml: "m \<le> length url" and pre': "\<forall>c \<in> set (take m url). \<not> line_terminator c"
      using that(2) unfolding le_length_takeWhile_iff by auto
    have "url = take m url @ p' @ r'" using append_take_drop_id [of m url] p'(2) by simp
    from d6 [OF this pre' p'(1)] have "m \<le> ?n" using ml by simp
    then show False using that(1) by simp
  qed
  have "star_greedy AnyChar (\<lambda>rest. after_star (None, rest)) url = Some (Some seg)"
    unfolding star_greedy_Some using 1 2 3 by blast
  then show ?L using d(6) by (simp add: extractVideoId_star)
qed

theorem extractVideoId_iff_witness:
  "extractVideoId (ascii ''https://youtu.be/dQw4w9WgXcQ?t=1'') = Some (ascii ''dQw4w9WgXcQ'')
   \<and> (\<exists>pre p rest.
         ascii ''https://youtu.be/dQw4w9WgXcQ?t=1'' = pre @ p @ ascii ''dQw4w9WgXcQ'' @ rest
       \<and> (\<forall>c \<in> set pre. \<not> line_terminator c)
       \<and> link_prefix p
       \<and> (\<forall>c \<in> set (ascii ''dQw4w9WgXcQ''). \<not> id_delimiter c)
       \<and> (rest = [] \<or> id_delimiter (hd rest))
       \<and> (\<forall>pre' p' rest'.
             ascii ''https://youtu.be/dQw4w9WgXcQ?t=1'' = pre' @ p' @ rest'
               \<and> (\<forall>c \<in> set pre'. \<not> line_terminator c) \<and> link_prefix p'
             \<longrightarrow> length pre' \<le> length pre)
       \<and> length (ascii ''dQw4w9WgXcQ'') = 11)"
proof (rule conjI)
  show l: "extractVideoId (ascii ''https://youtu.be/dQw4w9WgXcQ?t=1'') = Some (ascii ''dQw4w9WgXcQ'')"
    by code_simp
  from extractVideoId_iff
      [of "ascii ''https://youtu.be/dQw4w9WgXcQ?t=1''" "ascii ''dQw4w9WgXcQ''"] l
  show "\<exists>pre p rest.
         ascii ''https://youtu.be/dQw4w9WgXcQ?t=1'' = pre @ p @ ascii ''dQw4w9WgXcQ'' @ rest
       \<and> (\<forall>c \<in> set pre. \<not> line_terminator c)
       \<and> link_prefix p
       \<and> (\<forall>c \<in> set (ascii ''dQw4w9WgXcQ''). \<not> id_delimiter c)
       \<and> (rest = [] \<or> id_delimiter (hd rest))
       \<and> (\<forall>pre' p' rest'.
             ascii ''https://youtu.be/dQw4w9WgXcQ?t=1'' = pre' @ p' @ rest'
               \<and> (\<forall>c \<in> set pre'. \<not> line_terminator c) \<and> link_prefix p'
             \<longrightarrow> length pre' \<le> length pre)
       \<and> length (ascii ''dQw4w9WgXcQ'') = 11"
    by (rule iffD1)
qed

text \<open>
  A link text later in the line takes the capture: here the identifier of a short link is
  followed by a query that ends in \<^verbatim>\<open>e/\<close>, the capture is empty and the result is
  \<^verbatim>\<open>null\<close>.
\<close>

lemma extractVideoId_later_link_text:
  "extractVideoId (ascii ''https://youtu.be/dQw4w9WgXcQ?x=e/'') = None"
  by code_simp

section \<open>Properties of the JSON functions\<close>

lemma unat_of_nat16: "n < 65536 \<Longrightarrow> unat (of_nat n :: jschar) = n"
  by (simp add: unat_of_nat)

lemma unat_lt16: "unat (c :: jschar) < 65536"
  using unsigned_less [of c, where ?'a = nat] by simp

lemma hex_split:
  "((n div 4096 * 16 + n div 256 mod 16) * 16 + n div 16 mod 16) * 16 + n mod 16 = (n::nat)"
proof -
  have a: "n div 256 = n div 16 div 16" by (simp add: div_mult2_eq)
  have b: "n div 4096 = n div 256 div 16" by (simp add: div_mult2_eq)
  have 1: "n div 16 * 16 + n mod 16 = n" by (rule div_mult_mod_eq)
  have 2: "n div 16 div 16 * 16 + n div 16 mod 16 = n div 16" by (rule div_mult_mod_eq)
  have 3: "n div 256 div 16 * 16 + n div 256 mod 16 = n div 256" by (rule div_mult_mod_eq)
  show ?thesis unfolding b 3 unfolding a 2 1 ..
qed

lemma hex_val_hex_digit: "d < 16 \<Longrightarrow> hex_val (hex_digit d) = Some d"
proof (cases "d < 10")
  case True
  then have "unat (of_nat (48 + d) :: jschar) = 48 + d" by (intro unat_of_nat16) simp
  then show ?thesis using True
    by (simp add: hex_val_def hex_digit_def word_le_nat_alt del: of_nat_add)
next
  case False
  assume "d < 16"
  then have "unat (of_nat (87 + d) :: jschar) = 87 + d" by (intro unat_of_nat16) simp
  then show ?thesis using False \<open>d < 16\<close>
    by (simp add: hex_val_def hex_digit_def word_le_nat_alt del: of_nat_add)
qed

lemma hex4_unicode:
  "hex4 (hex_digit (unat c div 4096)) (hex_digit (unat c div 256 mod 16))
        (hex_digit (unat c div 16 mod 16)) (hex_digit (unat c mod 16)) = Some (c :: jschar)"
proof -
  have "unat c div 4096 < 16" using unat_lt16 [of c] by simp
  moreover have "(of_nat (((unat c div 4096 * 16 + unat c div 256 mod 16) * 16
      + unat c div 16 mod 16) * 16 + unat c mod 16) :: jschar) = c"
    unfolding hex_split by simp
  ultimately show ?thesis
    by (simp add: hex4_def hex_val_hex_digit del: of_nat_add of_nat_mult)
qed

lemma digit_char_props:
  assumes "d < 10"
  shows "is_digit (digit_char d)" and "digit_val (digit_char d) = d"
    and "digit_char d = 0x30 \<longleftrightarrow> d = 0"
proof -
  have u: "unat (of_nat (48 + d) :: jschar) = 48 + d" using assms by (intro unat_of_nat16) simp
  show "is_digit (digit_char d)" using u assms
    by (simp add: is_digit_def digit_char_def word_le_nat_alt del: of_nat_add)
  show "digit_val (digit_char d) = d" using u
    by (simp add: digit_char_def digit_val_def del: of_nat_add)
  have "digit_char d = 0x30 \<longleftrightarrow> unat (digit_char d) = unat (0x30 :: jschar)"
    by (simp add: word_unat_eq_iff)
  then show "digit_char d = 0x30 \<longleftrightarrow> d = 0" using u
    by (simp add: digit_char_def del: of_nat_add)
qed

lemma lex_string_unicode_escape:
  "lex_string (unicode_escape c @ cs) = map_option (\<lambda>(s, r). (c # s, r)) (lex_string cs)"
  by (simp add: unicode_escape_def hex4_unicode)

lemma lex_string_plain:
  "\<not> c < 0x20 \<Longrightarrow> c \<noteq> 0x22 \<Longrightarrow> c \<noteq> 0x5C \<Longrightarrow>
   lex_string (c # cs) = map_option (\<lambda>(s, r). (c # s, r)) (lex_string cs)"
  by simp

lemma surrogate_plain:
  "lead_surrogate c \<or> trail_surrogate c \<Longrightarrow> \<not> c < 0x20 \<and> c \<noteq> 0x22 \<and> c \<noteq> 0x5C"
  by (auto simp: lead_surrogate_def trail_surrogate_def word_le_nat_alt word_less_nat_alt)

lemma lex_string_escape:
  "escape_char e = Some x \<Longrightarrow> e \<noteq> 0x75 \<Longrightarrow>
   lex_string (0x5C # e # cs) = map_option (\<lambda>(s, r). (x # s, r)) (lex_string cs)"
  by simp

lemma quote_body_step:
  "quote_body (c # cs) =
     (if c = 0x08 then [0x5C, 0x62] @ quote_body cs
      else if c = 0x09 then [0x5C, 0x74] @ quote_body cs
      else if c = 0x0A then [0x5C, 0x6E] @ quote_body cs
      else if c = 0x0C then [0x5C, 0x66] @ quote_body cs
      else if c = 0x0D then [0x5C, 0x72] @ quote_body cs
      else if c = 0x22 then [0x5C, 0x22] @ quote_body cs
      else if c = 0x5C then [0x5C, 0x5C] @ quote_body cs
      else if c < 0x20 \<or> trail_surrogate c
              \<or> (lead_surrogate c \<and> (cs = [] \<or> \<not> trail_surrogate (hd cs)))
        then unicode_escape c @ quote_body cs
      else if lead_surrogate c then c # hd cs # quote_body (tl cs)
      else c # quote_body cs)"
  by (cases cs) (auto simp: lead_surrogate_def trail_surrogate_def word_le_nat_alt)

lemma lex_string_quote_body:
  "lex_string (quote_body s @ 0x22 # rest) = Some (s, rest)"
proof (induction "length s" arbitrary: s rule: less_induct)
  case less
  show ?case
  proof (cases s)
    case Nil
    then show ?thesis by simp
  next
    case (Cons c cs)
    have ih: "lex_string (quote_body cs @ 0x22 # rest) = Some (cs, rest)"
      using less [of cs] Cons by simp
    have e: "lex_string ([0x5C, e] @ quote_body cs @ 0x22 # rest) = Some (x # cs, rest)"
      if "escape_char e = Some x" "e \<noteq> 0x75" for e x
      using lex_string_escape [OF that] ih by simp
    have u: "lex_string (unicode_escape c @ quote_body cs @ 0x22 # rest) = Some (c # cs, rest)"
      by (simp only: lex_string_unicode_escape ih) simp
    consider (b) "c = 0x08" | (t) "c = 0x09" | (n) "c = 0x0A" | (f) "c = 0x0C" | (r) "c = 0x0D"
      | (q) "c = 0x22" | (bs) "c = 0x5C"
      | (uni) "c \<notin> {0x08, 0x09, 0x0A, 0x0C, 0x0D, 0x22, 0x5C}"
          "c < 0x20 \<or> trail_surrogate c
              \<or> (lead_surrogate c \<and> (cs = [] \<or> \<not> trail_surrogate (hd cs)))"
      | (pair) "c \<notin> {0x08, 0x09, 0x0A, 0x0C, 0x0D, 0x22, 0x5C}"
          "\<not> c < 0x20" "lead_surrogate c" "cs \<noteq> []" "trail_surrogate (hd cs)"
      | (plain) "c \<notin> {0x08, 0x09, 0x0A, 0x0C, 0x0D, 0x22, 0x5C}"
          "\<not> c < 0x20" "\<not> trail_surrogate c" "\<not> lead_surrogate c"
      by blast
    then show ?thesis
    proof cases
      case b
      have "quote_body s = [0x5C, 0x62] @ quote_body cs" unfolding Cons b by simp
      then show ?thesis using e [of "0x62" "0x08"] by (simp add: escape_char_def Cons b)
    next
      case t
      have "quote_body s = [0x5C, 0x74] @ quote_body cs" unfolding Cons t by simp
      then show ?thesis using e [of "0x74" "0x09"] by (simp add: escape_char_def Cons t)
    next
      case n
      have "quote_body s = [0x5C, 0x6E] @ quote_body cs" unfolding Cons n by simp
      then show ?thesis using e [of "0x6E" "0x0A"] by (simp add: escape_char_def Cons n)
    next
      case f
      have "quote_body s = [0x5C, 0x66] @ quote_body cs" unfolding Cons f by simp
      then show ?thesis using e [of "0x66" "0x0C"] by (simp add: escape_char_def Cons f)
    next
      case r
      have "quote_body s = [0x5C, 0x72] @ quote_body cs" unfolding Cons r by simp
      then show ?thesis using e [of "0x72" "0x0D"] by (simp add: escape_char_def Cons r)
    next
      case q
      have "quote_body s = [0x5C, 0x22] @ quote_body cs" unfolding Cons q by simp
      then show ?thesis using e [of "0x22" "0x22"] by (simp add: escape_char_def Cons q)
    next
      case bs
      have "quote_body s = [0x5C, 0x5C] @ quote_body cs" unfolding Cons bs by simp
      then show ?thesis using e [of "0x5C" "0x5C"] by (simp add: escape_char_def Cons bs)
    next
      case uni
      have "quote_body s = unicode_escape c @ quote_body cs"
        unfolding Cons quote_body_step [of c cs] using uni by simp
      then show ?thesis using u by (simp add: Cons)
    next
      case pair
      then obtain d ds where cs: "cs = d # ds" by (cases cs) auto
      have ihd: "lex_string (quote_body ds @ 0x22 # rest) = Some (ds, rest)"
        using less [of ds] Cons cs by simp
      have q: "quote_body s = c # d # quote_body ds"
        unfolding Cons cs using pair cs by auto
      have pd: "\<not> d < 0x20 \<and> d \<noteq> 0x22 \<and> d \<noteq> 0x5C"
        using pair(5) cs surrogate_plain [of d] by simp
      have pc: "c \<noteq> 0x22 \<and> c \<noteq> 0x5C" using pair(1) by simp
      show ?thesis unfolding q using pc pd pair(2) ihd by (simp add: Cons cs)
    next
      case plain
      have "quote_body s = c # quote_body cs"
        unfolding Cons quote_body_step [of c cs] using plain by simp
      then show ?thesis using plain ih by (simp add: Cons)
    qed
  qed
qed

lemma digits_of_unfold:
  "digits_of n = (if n < 10 then [digit_char n] else digits_of (n div 10) @ [digit_char (n mod 10)])"
  by (rule digits_of.simps)

lemma digits_of_digits: "c \<in> set (digits_of n) \<Longrightarrow> is_digit c"
proof (induction n arbitrary: c rule: digits_of.induct)
  case (1 n)
  show ?case
  proof (cases "n < 10")
    case True
    then show ?thesis using "1.prems" digit_char_props(1) [of n]
      by (simp add: digits_of_unfold [of n] del: digits_of.simps)
  next
    case False
    then show ?thesis using "1.prems" "1.IH" digit_char_props(1) [of "n mod 10"]
      by (auto simp: digits_of_unfold [of n] simp del: digits_of.simps)
  qed
qed

lemma digits_of_nonempty: "digits_of n \<noteq> []"
  by (simp add: digits_of_unfold [of n] del: digits_of.simps)

lemma digits_value_snoc: "digits_value (ds @ [c]) = 10 * digits_value ds + digit_val c"
  by (simp add: digits_value_def)

lemma digits_value_digits_of: "digits_value (digits_of n) = n"
proof (induction n rule: digits_of.induct)
  case (1 n)
  show ?case
  proof (cases "n < 10")
    case True
    then show ?thesis using digit_char_props(2) [of n]
      by (simp add: digits_of_unfold [of n] digits_value_def del: digits_of.simps)
  next
    case False
    then show ?thesis using "1.IH" digit_char_props(2) [of "n mod 10"]
      by (simp add: digits_of_unfold [of n] digits_value_snoc del: digits_of.simps)
  qed
qed

lemma hd_digits_of_zero: "hd (digits_of n) = 0x30 \<longleftrightarrow> n = 0"
proof (induction n rule: digits_of.induct)
  case (1 n)
  show ?case
  proof (cases "n < 10")
    case True
    then show ?thesis using digit_char_props(3) [of n]
      by (simp add: digits_of_unfold [of n] del: digits_of.simps)
  next
    case False
    then have "n div 10 \<noteq> 0" by simp
    then show ?thesis using "1.IH" False digits_of_nonempty [of "n div 10"]
      by (simp add: digits_of_unfold [of n] del: digits_of.simps)
  qed
qed

lemma digits_of_zero: "digits_of 0 = [0x30]"
  by (simp add: digit_char_def)

lemma takeWhile_digits_of:
  "\<not> is_digit c \<Longrightarrow> takeWhile is_digit (digits_of n @ c # rest) = digits_of n"
  "\<not> is_digit c \<Longrightarrow> dropWhile is_digit (digits_of n @ c # rest) = c # rest"
  "takeWhile is_digit (digits_of n) = digits_of n"
  using digits_of_digits [of _ n]
  by (simp_all add: takeWhile_append2 dropWhile_append2 takeWhile_eq_all_conv del: digits_of.simps)

lemma is_digit_not_sign:
  "is_digit c \<Longrightarrow> \<not> js_whitespace c \<and> c \<noteq> 0x2D \<and> c \<noteq> 0x2B"
  by (auto simp: is_digit_def js_whitespace_def word_le_nat_alt)

lemma hd_digits_of: "is_digit (hd (digits_of n))"
  using digits_of_digits [of "hd (digits_of n)" n] digits_of_nonempty [of n] by simp

lemma parseInt_Number_toString:
  assumes "0 \<le> i"
  shows "parseInt (Number_toString i) = Some i"
proof -
  let ?ds = "digits_of (nat i)"
  obtain c cs where ds: "?ds = c # cs" using digits_of_nonempty [of "nat i"] by (cases ?ds) auto
  have c: "\<not> js_whitespace c \<and> c \<noteq> 0x2D \<and> c \<noteq> 0x2B"
    using hd_digits_of [of "nat i"] ds is_digit_not_sign by simp
  have n: "Number_toString i = ?ds" using assms by (simp add: Number_toString_def del: digits_of.simps)
  have t: "takeWhile is_digit (c # cs) = c # cs"
    using takeWhile_digits_of(3) [of "nat i"] ds by simp
  have v: "digits_value (c # cs) = nat i"
    using digits_value_digits_of [of "nat i"] ds by simp
  show ?thesis
    unfolding n ds parseInt_def using c t v assms by (simp add: Let_def)
qed

lemma parseInt_empty: "parseInt [] = None"
  by (simp add: parseInt_def)

lemma lex_number_Number_toString:
  "lex_number (Number_toString i @ 0x2C # rest) = Some ((i, 0), 0x2C # rest)"
proof -
  have comma: "\<not> is_digit 0x2C" by (simp add: is_digit_def)
  have fr: "lex_fraction (0x2C # rest) = Some ([], 0x2C # rest)" by (simp add: lex_fraction_def)
  have ex: "lex_exponent (0x2C # rest) = Some (0, 0x2C # rest)" by (simp add: lex_exponent_def)
  show ?thesis
  proof (cases "i < 0")
    case True
    let ?n = "nat (- i)"
    have n: "Number_toString i = 0x2D # digits_of ?n"
      using True by (simp add: Number_toString_def del: digits_of.simps)
    have nz: "hd (digits_of ?n) \<noteq> 0x30" using hd_digits_of_zero [of ?n] True by simp
    have "digits_of ?n \<noteq> []" by (rule digits_of_nonempty)
    then show ?thesis
      unfolding n lex_number_def
      using nz True comma
      by (simp add: Let_def takeWhile_digits_of fr ex digits_value_digits_of del: digits_of.simps)
  next
    case False
    let ?n = "nat i"
    obtain c cs where ds: "digits_of ?n = c # cs"
      using digits_of_nonempty [of ?n] by (cases "digits_of ?n") auto
    have c: "c \<noteq> 0x2D" using hd_digits_of [of ?n] ds is_digit_not_sign by simp
    have n: "Number_toString i = digits_of ?n"
      using False by (simp add: Number_toString_def del: digits_of.simps)
    have lead: "hd (digits_of ?n) = 0x30 \<longrightarrow> length (digits_of ?n) = 1"
      using hd_digits_of_zero [of ?n] digits_of_zero by (auto simp del: digits_of.simps)
    have hdapp: "hd (digits_of ?n @ 0x2C # rest) \<noteq> 0x2D" using ds c by simp
    show ?thesis
      unfolding n lex_number_def
      using hdapp lead False comma digits_of_nonempty [of ?n]
      by (simp add: Let_def takeWhile_digits_of fr ex digits_value_digits_of del: digits_of.simps)
  qed
qed

lemma lex_QuoteJSONString:
  "lex (QuoteJSONString s @ rest) = map_option (Cons (TString s)) (lex rest)"
  by (simp add: lex.simps QuoteJSONString_def json_ws_def lex_string_quote_body)

lemma lex_punct:
  "lex (0x7B # cs) = map_option (Cons TLBrace) (lex cs)"
  "lex (0x7D # cs) = map_option (Cons TRBrace) (lex cs)"
  "lex (0x5B # cs) = map_option (Cons TLBracket) (lex cs)"
  "lex (0x5D # cs) = map_option (Cons TRBracket) (lex cs)"
  "lex (0x2C # cs) = map_option (Cons TComma) (lex cs)"
  "lex (0x3A # cs) = map_option (Cons TColon) (lex cs)"
  by (simp_all add: lex.simps json_ws_def)

lemma is_digit_not_punct:
  "is_digit c \<Longrightarrow> \<not> json_ws c \<and> c \<notin> {0x5B, 0x5D, 0x7B, 0x7D, 0x2C, 0x3A, 0x22}"
  by (auto simp: is_digit_def json_ws_def word_le_nat_alt)

lemma lex_number_start:
  assumes "c = 0x2D \<or> is_digit c"
  shows "lex (c # cs) =
           (case lex_number (c # cs) of
              None \<Rightarrow> None
            | Some ((m, e), r) \<Rightarrow> map_option (Cons (TNumber m e)) (lex r))"
proof -
  have "\<not> json_ws c \<and> c \<notin> {0x5B, 0x5D, 0x7B, 0x7D, 0x2C, 0x3A, 0x22}"
    using assms is_digit_not_punct [of c] by (auto simp: json_ws_def)
  then show ?thesis using assms by (simp add: lex.simps)
qed

lemma Number_toString_start:
  "\<exists>c cs. Number_toString i = c # cs \<and> (c = 0x2D \<or> is_digit c)"
proof (cases "i < 0")
  case True
  then show ?thesis by (simp add: Number_toString_def del: digits_of.simps)
next
  case False
  then show ?thesis
    using hd_digits_of [of "nat i"] digits_of_nonempty [of "nat i"]
    by (cases "digits_of (nat i)") (auto simp: Number_toString_def simp del: digits_of.simps)
qed

lemma lex_Number_toString:
  "lex (Number_toString i @ 0x2C # rest) =
     map_option (\<lambda>ts. TNumber i 0 # TComma # ts) (lex rest)"
proof -
  obtain c cs where n: "Number_toString i = c # cs" and c: "c = 0x2D \<or> is_digit c"
    using Number_toString_start by blast
  have "lex_number (c # cs @ 0x2C # rest) = Some ((i, 0), 0x2C # rest)"
    using lex_number_Number_toString [of i rest] n by simp
  then have "lex (c # cs @ 0x2C # rest) = map_option (Cons (TNumber i 0)) (lex (0x2C # rest))"
    using lex_number_start [OF c, of "cs @ 0x2C # rest"] by simp
  then show ?thesis
    by (simp add: n lex_punct option.map_comp o_def)
qed

lemma lex_stringify_item:
  "lex (stringify_item v @ rest) = map_option (\<lambda>ts. item_tokens v @ ts) (lex rest)"
proof -
  have a: "ascii ''{'' = [0x7B]" "ascii ''}'' = [0x7D]" "ascii '':'' = [0x3A]" "ascii '','' = [0x2C]"
    by (simp_all add: ascii_def)
  show ?thesis
    unfolding stringify_item_def item_tokens_def a
    by (simp add: lex_punct lex_QuoteJSONString lex_Number_toString option.map_comp o_def)
qed

lemma join_comma_Cons:
  "join_comma (x # xs) = x @ concat (map (\<lambda>y. 0x2C # y) xs)"
  by (induction xs arbitrary: x) (simp_all add: ascii_def)

lemma join_comma_items:
  "join_comma (map stringify_item (v # vs)) =
     stringify_item v @ concat (map (\<lambda>v. 0x2C # stringify_item v) vs)"
  using join_comma_Cons [of "stringify_item v" "map stringify_item vs"]
  by (simp add: o_def)

lemma lex_items_tail:
  "lex (concat (map (\<lambda>v. 0x2C # stringify_item v) vs) @ rest) =
     map_option (\<lambda>ts. concat (map (\<lambda>v. TComma # item_tokens v) vs) @ ts) (lex rest)"
proof (induction vs)
  case Nil
  show ?case by (simp add: option.map_ident)
next
  case (Cons v vs)
  show ?case
    by (simp add: lex_punct lex_stringify_item Cons.IH option.map_comp o_def)
qed

lemma lex_JSON_stringify: "lex (JSON_stringify pl) = Some (playlist_tokens pl)"
proof -
  have b: "ascii ''['' = [0x5B]" "ascii '']'' = [0x5D]" by (simp_all add: ascii_def)
  have e: "lex [0x5D] = Some [TRBracket]" by (simp add: lex_punct lex.simps(1))
  show ?thesis
  proof (cases pl)
    case Nil
    then show ?thesis
      by (simp add: JSON_stringify_def playlist_tokens_def b lex_punct e lex.simps(1))
  next
    case (Cons v vs)
    then show ?thesis
      by (simp add: JSON_stringify_def playlist_tokens_def b lex_punct join_comma_items
          lex_stringify_item lex_items_tail e lex.simps(1) del: list.map)
  qed
qed

lemma prun_append:
  "prun c (xs @ ys) = (case prun c xs of None \<Rightarrow> None | Some c' \<Rightarrow> prun c' ys)"
  by (induction xs arbitrary: c) (auto split: option.splits)

lemma prun_item:
  assumes "m = PValue \<or> m = PValueOrClose"
  shows "prun (m, FArr vs # st) (item_tokens v) = Some (PAfter, FArr (vs @ [item_json v]) # st)"
  using assms by (auto simp: item_tokens_def item_json_def)

lemma prun_items_tail:
  "prun (PAfter, FArr acc # st) (concat (map (\<lambda>v. TComma # item_tokens v) vs) @ [TRBracket]) =
     close_value (JArray (acc @ map item_json vs)) st"
proof (induction vs arbitrary: acc)
  case Nil
  show ?case
    by (cases "close_value (JArray acc) st") simp_all
next
  case (Cons v vs)
  have "prun (PValue, FArr acc # st) (item_tokens v) =
          Some (PAfter, FArr (acc @ [item_json v]) # st)"
    by (rule prun_item) simp
  then show ?case
    using Cons.IH [of "acc @ [item_json v]"] by (simp add: prun_append)
qed

lemma prun_playlist_tokens:
  "prun (PValue, []) (playlist_tokens pl) = Some (PDone (JArray (map item_json pl)), [])"
proof (cases pl)
  case Nil
  then show ?thesis by (simp add: playlist_tokens_def)
next
  case (Cons v vs)
  have "prun (PValueOrClose, [FArr []]) (item_tokens v) = Some (PAfter, [FArr ([] @ [item_json v])])"
    by (rule prun_item) simp
  then show ?thesis
    using prun_items_tail [of "[item_json v]" "[]" vs]
    by (simp add: playlist_tokens_def Cons prun_append)
qed

lemma JSON_parse_stringify: "JSON_parse (JSON_stringify pl) = Some (JArray (map item_json pl))"
  by (simp add: JSON_parse_def lex_JSON_stringify prun_playlist_tokens)

lemma as_PlaylistItem_item_json: "as_PlaylistItem (item_json v) = Some v"
  by (simp add: as_PlaylistItem_def item_json_def as_int_def json_member_def ascii_def)


lemma those_items_item_json: "those_items (map item_json pl) = Some pl"
  by (induction pl) (simp_all add: as_PlaylistItem_item_json)

lemma as_playlist_stringify:
  "as_playlist (JArray (map item_json pl)) = Some pl"
  by (simp add: as_playlist_def those_items_item_json)

section \<open>Properties of persistence\<close>

lemma storage_keys_distinct:
  "LOCAL_STORAGE_KEY \<noteq> LOCAL_STORAGE_CURRENT_INDEX_KEY"
  "LOCAL_STORAGE_KEY \<noteq> LOCAL_STORAGE_PLAY_MODE_KEY"
  "LOCAL_STORAGE_CURRENT_INDEX_KEY \<noteq> LOCAL_STORAGE_PLAY_MODE_KEY"
  by (simp_all add: LOCAL_STORAGE_KEY_def LOCAL_STORAGE_CURRENT_INDEX_KEY_def
      LOCAL_STORAGE_PLAY_MODE_KEY_def ascii_def)

lemma playMode_string_distinct:
  "ascii ''none'' \<noteq> ascii ''repeat-all''" "ascii ''none'' \<noteq> ascii ''shuffle''"
  "ascii ''repeat-all'' \<noteq> ascii ''shuffle''"
  by (simp_all add: ascii_def)

lemma load_mode_eq:
  assumes "playMode s = ModeNone"
  shows "load_mode st s = s\<lparr>playMode := spec_mode st\<rparr>"
proof -
  have s: "s\<lparr>playMode := ModeNone\<rparr> = s" using assms by (cases s) simp
  show ?thesis
  proof (cases "st LOCAL_STORAGE_PLAY_MODE_KEY")
    case None
    then show ?thesis by (simp add: load_mode_def spec_mode_def s)
  next
    case (Some saved)
    then show ?thesis
      using playMode_string_distinct
      by (simp add: load_mode_def spec_mode_def s)
  qed
qed

lemma load_index_eq:
  "load_index st parsed s =
     s\<lparr>currentTrackIndex :=
         (case spec_position st (case parsed of None \<Rightarrow> [] | Some pl \<Rightarrow> pl) of
            None \<Rightarrow> currentTrackIndex s
          | Some i \<Rightarrow> Some i)\<rparr>"
  by (cases parsed)
    (auto simp: load_index_def spec_position_def split: option.splits)

lemma load_fields:
  "load_mode st (load_index st parsed (initial_player\<lparr>playlist := pl\<rparr>)) =
     initial_player
       \<lparr>playlist := pl,
        currentTrackIndex := spec_position st (case parsed of None \<Rightarrow> [] | Some pl \<Rightarrow> pl),
        playMode := spec_mode st\<rparr>"
proof -
  let ?p = "spec_position st (case parsed of None \<Rightarrow> [] | Some pl \<Rightarrow> pl)"
  have 1: "load_index st parsed (initial_player\<lparr>playlist := pl\<rparr>) =
      initial_player\<lparr>playlist := pl, currentTrackIndex := ?p\<rparr>"
    unfolding load_index_eq by (cases ?p) (simp_all add: initial_player_def)
  have 2: "playMode (initial_player\<lparr>playlist := pl, currentTrackIndex := ?p\<rparr>) = ModeNone"
    by (simp add: initial_player_def)
  show ?thesis unfolding 1 load_mode_eq [OF 2] ..
qed

lemma load_untyped_eq:
  "load_untyped st v =
     (case spec_index st of
        None \<Rightarrow> Untyped v None (spec_mode st)
      | Some index \<Rightarrow>
          (case length_exceeds v index of
             Holds \<Rightarrow> Untyped v (Some index) (spec_mode st)
           | Fails \<Rightarrow> Untyped v None (spec_mode st)
           | Throws \<Rightarrow> Untyped v None ModeNone
           | NotModelled \<Rightarrow> Unmodelled))"
proof -
  have "playMode initial_player = ModeNone" by (simp add: initial_player_def)
  then have m: "playMode (load_mode st initial_player) = spec_mode st"
    by (simp add: load_mode_eq)
  show ?thesis
    unfolding load_untyped_def Let_def m spec_index_def
    by (simp split: option.splits comparison.splits)
qed

lemma load_unfold:
  "load st =
     (case st LOCAL_STORAGE_KEY of
        None \<Rightarrow> Inr (spec_load st)
      | Some savedPlaylist \<Rightarrow>
          if savedPlaylist = [] then Inr (spec_load st)
          else
            (case JSON_parse savedPlaylist of
               None \<Rightarrow> Inr initial_player
             | Some v \<Rightarrow> (case as_playlist v of
                    None \<Rightarrow>
                      Inl (case spec_index st of
                             None \<Rightarrow> Untyped v None (spec_mode st)
                           | Some index \<Rightarrow>
                               (case length_exceeds v index of
                                  Holds \<Rightarrow> Untyped v (Some index) (spec_mode st)
                                | Fails \<Rightarrow> Untyped v None (spec_mode st)
                                | Throws \<Rightarrow> Untyped v None ModeNone
                                | NotModelled \<Rightarrow> Unmodelled))
                  | Some pl \<Rightarrow> Inr (spec_load st))))"
proof -
  have e: "JSON_parse [] = None" by (simp add: JSON_parse_def lex.simps)
  have i: "initial_player = initial_player\<lparr>playlist := []\<rparr>" by (simp add: initial_player_def)
  have a: "load_mode st (load_index st None initial_player) = spec_load st"
    if "st LOCAL_STORAGE_KEY = None \<or> st LOCAL_STORAGE_KEY = Some []"
  proof -
    have "spec_playlist st = []" using that e by (auto simp: spec_playlist_def)
    then show ?thesis
      using load_fields [of st None "[]"] by (simp add: spec_load_def i [symmetric])
  qed
  have b: "load_mode st (load_index st (Some pl) (initial_player\<lparr>playlist := pl\<rparr>)) = spec_load st"
    if "st LOCAL_STORAGE_KEY = Some t" "JSON_parse t = Some v" "as_playlist v = Some pl" for t v pl
  proof -
    have "spec_playlist st = pl" using that by (simp add: spec_playlist_def)
    then show ?thesis using load_fields [of st "Some pl" pl] by (simp add: spec_load_def)
  qed
  show ?thesis
    using a b by (auto simp: load_def load_untyped_eq split: option.splits)
qed



lemma JSON_stringify_nonempty: "JSON_stringify pl \<noteq> []"
  by (simp add: JSON_stringify_def ascii_def)

lemma spec_mode_playMode_string:
  "st LOCAL_STORAGE_PLAY_MODE_KEY = Some (playMode_string m) \<Longrightarrow> spec_mode st = m"
  using playMode_string_distinct by (cases m) (simp_all add: spec_mode_def)

lemma save_load:
  assumes "currentTrackIndex s = None
         \<or> (\<exists>i. currentTrackIndex s = Some i \<and> 0 \<le> i \<and> i < int (length (playlist s)))"
  shows "load (save s st) =
           Inr (initial_player\<lparr>playlist := playlist s, currentTrackIndex := currentTrackIndex s,
                                playMode := playMode s\<rparr>)"
proof -
  let ?st = "save s st"
  let ?idx = "case currentTrackIndex s of Some i \<Rightarrow> Number_toString i | None \<Rightarrow> []"
  have k: "?st LOCAL_STORAGE_KEY = Some (JSON_stringify (playlist s))"
    "?st LOCAL_STORAGE_CURRENT_INDEX_KEY = Some ?idx"
    "?st LOCAL_STORAGE_PLAY_MODE_KEY = Some (playMode_string (playMode s))"
    using storage_keys_distinct by (simp_all add: save_def)
  have l: "load ?st = Inr (spec_load ?st)"
    by (simp add: load_unfold k JSON_stringify_nonempty JSON_parse_stringify as_playlist_stringify)
  have p: "spec_playlist ?st = playlist s"
    by (simp add: spec_playlist_def k JSON_parse_stringify as_playlist_stringify)
  have i: "spec_position ?st (playlist s) = currentTrackIndex s"
  proof (cases "currentTrackIndex s")
    case None
    then show ?thesis by (simp add: spec_position_def k parseInt_empty)
  next
    case (Some i)
    then have "0 \<le> i" "i < int (length (playlist s))" using assms by auto
    then show ?thesis
      by (simp add: spec_position_def k Some parseInt_Number_toString)
  qed
  have m: "spec_mode ?st = playMode s" by (rule spec_mode_playMode_string) (rule k(3))
  show ?thesis by (simp add: l spec_load_def p i m)
qed




text \<open>
  Claim C7. For every state whose position is none or an index into its playlist,
  loading from the store that \<open>save\<close> has written gives back the same playlist, the same
  position and the same mode (on the initial values of the other state cells), whatever
  the store held before.
\<close>

theorem save_load_roundtrip:
  assumes "currentTrackIndex s = None
         \<or> (\<exists>i. currentTrackIndex s = Some i \<and> 0 \<le> i \<and> i < int (length (playlist s)))"
  shows "load (save s st) =
           Inr (initial_player\<lparr>playlist := playlist s, currentTrackIndex := currentTrackIndex s,
                                playMode := playMode s\<rparr>)"
  using assms by (rule save_load)

theorem save_load_roundtrip_witness:
  "currentTrackIndex (demo_player Shuffle (Some 2) []) = Some 2
   \<and> (0::int) \<le> 2 \<and> 2 < int (length (playlist (demo_player Shuffle (Some 2) [])))
   \<and> load (save (demo_player Shuffle (Some 2) []) Map.empty) =
       Inr (initial_player\<lparr>playlist := playlist (demo_player Shuffle (Some 2) []),
                            currentTrackIndex := Some 2, playMode := Shuffle\<rparr>)"
  using save_load_roundtrip [of "demo_player Shuffle (Some 2) []" Map.empty]
  by (simp add: demo_player_def)

section \<open>The position invariant\<close>

lemma selectVideo_valid: "position_valid s \<Longrightarrow> position_valid (selectVideo i s)"
  by (simp add: selectVideo_def position_valid_def)

lemma selectVideo_playlist [simp]: "playlist (selectVideo i s) = playlist s"
  by (simp add: selectVideo_def)

lemma playNext_playlist [simp]: "playlist (playNext rnd s) = playlist s"
  by (simp add: playNext_def Let_def)

lemma playNext_valid: "position_valid s \<Longrightarrow> position_valid (playNext rnd s)"
proof -
  assume v: "position_valid s"
  have u: "position_valid (s\<lparr>playedIndices := h\<rparr>)" for h
    using v by (simp add: position_valid_def split: option.splits)
  have n: "position_valid (s\<lparr>isPlaying := False, currentTrackIndex := None\<rparr>)"
    by (simp add: position_valid_def)
  show ?thesis
    unfolding playNext_def Let_def
    using v u n by (auto intro!: selectVideo_valid)
qed

lemma playPrevious_valid: "position_valid s \<Longrightarrow> position_valid (playPrevious s)"
  unfolding playPrevious_def Let_def by (auto intro!: selectVideo_valid)

lemma addVideo_valid:
  assumes "addVideo u t now s = Inr s'" and "position_valid s"
  shows "position_valid s'"
  using assms
  by (auto simp: addVideo_def position_valid_def Let_def split: if_splits option.splits)

lemma load_valid:
  assumes "load st = Inr s"
  shows "position_valid s"
proof -
  have i: "position_valid initial_player" by (simp add: position_valid_def initial_player_def)
  have m: "position_valid (load_mode st t)" if "position_valid t" for t
    using that by (auto simp: load_mode_def position_valid_def split: option.splits)
  have n: "position_valid (load_index st None initial_player)"
    using i by (auto simp: load_index_def position_valid_def split: option.splits)
  have p: "position_valid (load_index st (Some pl) (initial_player\<lparr>playlist := pl\<rparr>))" for pl
    by (auto simp: load_index_def position_valid_def initial_player_def split: option.splits)
  show ?thesis
    using assms i m [OF n] m [OF p]
    by (auto simp: load_def split: option.splits if_splits)
qed

lemma removeVideo_valid:
  assumes v: "position_valid s" and d: "distinct_ids s"
  shows "position_valid (removeVideo i s)"
proof (cases "findIndex (\<lambda>video. item_id video = i) (playlist s) = -1")
  case True
  then show ?thesis using v by (simp add: removeVideo_def)
next
  case False
  let ?idx = "findIndex (\<lambda>video. item_id video = i) (playlist s)"
  let ?new = "filter (\<lambda>video. item_id video \<noteq> i) (playlist s)"
  note fi = findIndex_item [of item_id i "playlist s", OF False]
  have k: "nat ?idx < length (playlist s)" and ik: "item_id (playlist s ! nat ?idx) = i"
    and ge: "0 \<le> ?idx"
    using fi by auto
  have "?new = filter (\<lambda>x. item_id x \<noteq> item_id (playlist s ! nat ?idx)) (playlist s)"
    by (simp add: ik)
  also have "\<dots> = take (nat ?idx) (playlist s) @ drop (Suc (nat ?idx)) (playlist s)"
    using d k unfolding distinct_ids_def by (rule filter_distinct_remove)
  finally have len: "Suc (length ?new) = length (playlist s)" using k by simp
  have pv: "position_valid (t\<lparr>playedIndices := h\<rparr>) = position_valid t" for t h
    by (simp add: position_valid_def split: option.splits)
  consider (sel) "currentTrackIndex s = Some ?idx"
    | (none) "currentTrackIndex s = None"
    | (other) c where "currentTrackIndex s = Some c" "c \<noteq> ?idx"
    by (cases "currentTrackIndex s") auto
  then show ?thesis
  proof cases
    case sel
    then show ?thesis using False ge
      by (simp add: removeVideo_def Let_def pv) (auto simp: position_valid_def)
  next
    case none
    then show ?thesis using False
      by (simp add: removeVideo_def Let_def pv) (simp add: position_valid_def)
  next
    case other
    have c: "0 \<le> c" "c < int (length (playlist s))"
      using v other(1) by (simp_all add: position_valid_def)
    show ?thesis
    proof (cases "?idx < c")
      case True
      have "0 \<le> c - 1" "c - 1 < int (length ?new)" using True ge c len by linarith+
      then show ?thesis using False other True
        by (simp add: removeVideo_def Let_def pv) (simp add: position_valid_def)
    next
      case lt: False
      have "c < int (length ?new)" using lt other(2) k ge len by linarith
      then show ?thesis using False other lt c
        by (simp add: removeVideo_def Let_def pv) (simp add: position_valid_def)
    qed
  qed
qed

lemma step_valid:
  assumes "step s s'" and "position_valid s" and "distinct_ids s"
  shows "position_valid s'"
  using assms
proof (induction rule: step.induct)
  case (add newVideoUrl newVideoTitle now s s')
  then show ?case by (auto intro: addVideo_valid)
next
  case (remove s idToRemove)
  then show ?case by (auto intro: removeVideo_valid)
next
  case (select s index)
  then show ?case by (auto intro: selectVideo_valid)
next
  case (advance rnd s)
  then show ?case by (auto intro: playNext_valid)
next
  case (previous s)
  then show ?case by (auto intro: playPrevious_valid)
next
  case (toggle s)
  then show ?case
    by (auto simp: togglePlayMode_def position_valid_def split: PlayMode.splits option.splits)
next
  case (play s)
  then show ?case by (auto simp: onPlayerPlay_def position_valid_def split: option.splits)
next
  case (pause s)
  then show ?case by (auto simp: onPlayerPause_def position_valid_def split: option.splits)
next
  case (ended rnd s)
  have "position_valid (s\<lparr>isPlaying := False\<rparr>)"
    using ended by (auto simp: position_valid_def split: option.splits)
  then show ?case
    using ended playNext_valid [of s rnd] by (auto simp: onPlayerEnd_def Let_def)
qed

lemma reachable_valid:
  "reachable_in distinct_ids s \<Longrightarrow> position_valid s \<and> distinct_ids s"
proof (induction rule: reachable_in.induct)
  case (loaded st s)
  then show ?case by (simp add: load_valid)
next
  case (stepped s s')
  then show ?case by (auto intro: step_valid)
qed

text \<open>
  Claim C9 as stated fails when two tracks carry the same identifier (two tracks added in
  the same millisecond, or a stored playlist that holds an identifier twice).
  \<^verbatim>\<open>removeVideo\<close> filters out every track with the identifier but corrects the position
  for one removed track: the state loaded from a store with two tracks of identifier 5
  and position 1 has a valid position, and one step, removing 5, leaves the empty
  playlist with position 0.
\<close>

theorem position_invalid_with_duplicate_ids:
  "load duplicate_id_store = Inr duplicate_id_player
   \<and> position_valid duplicate_id_player
   \<and> step duplicate_id_player (removeVideo 5 duplicate_id_player)
   \<and> removeVideo 5 duplicate_id_player =
       initial_player\<lparr>playlist := [], currentTrackIndex := Some 0\<rparr>
   \<and> \<not> position_valid (removeVideo 5 duplicate_id_player)"
proof -
  let ?s = "initial_player\<lparr>playlist := [demo_item 5, demo_item 5], currentTrackIndex := Some 1\<rparr>"
  have st: "duplicate_id_store = save ?s Map.empty"
    by (simp add: duplicate_id_store_def save_def initial_player_def Number_toString_def
        digit_char_def ascii_def)
  have "load (save ?s Map.empty) =
      Inr (initial_player\<lparr>playlist := playlist ?s, currentTrackIndex := currentTrackIndex ?s,
                                playMode := playMode ?s\<rparr>)"
    by (rule save_load) simp
  then have l: "load duplicate_id_store = Inr duplicate_id_player"
    by (simp add: st duplicate_id_player_def initial_player_def)
  have v: "position_valid duplicate_id_player"
    by (simp add: position_valid_def duplicate_id_player_def)
  have r: "removeVideo 5 duplicate_id_player =
       initial_player\<lparr>playlist := [], currentTrackIndex := Some 0\<rparr>"
    by (simp add: removeVideo_def duplicate_id_player_def demo_item_def initial_player_def Let_def)
  have re: "step duplicate_id_player (removeVideo 5 duplicate_id_player)"
    by (rule step.remove)
  have n: "\<not> position_valid (removeVideo 5 duplicate_id_player)"
    unfolding r by (simp add: position_valid_def initial_player_def)
  from l v re r n show ?thesis by blast
qed

text \<open>
  Claim C9, amended. In every state reached through states whose track identifiers are
  pairwise distinct, the position is none or an index into the playlist: every handler
  (add, remove, select, next, previous, mode toggle, the callbacks of the embedded
  player) keeps the position valid when it starts from a state with a valid position and
  distinct identifiers, and \<open>load\<close> always gives a valid position.
\<close>

theorem position_valid_with_distinct_ids:
  "(reachable_in distinct_ids s \<longrightarrow> position_valid s)
   \<and> (position_valid s \<and> distinct_ids s \<and> step s s' \<longrightarrow> position_valid s')
   \<and> (load st = Inr s0 \<longrightarrow> position_valid s0)"
  using reachable_valid [of s] step_valid [of s s'] load_valid [of st s0] by blast

theorem position_valid_with_distinct_ids_witness:
  "reachable_in distinct_ids initial_player
   \<and> position_valid initial_player
   \<and> position_valid (demo_player ModeNone (Some 2) [])
   \<and> distinct_ids (demo_player ModeNone (Some 2) [])
   \<and> step (demo_player ModeNone (Some 2) []) (removeVideo 3 (demo_player ModeNone (Some 2) []))
   \<and> position_valid (removeVideo 3 (demo_player ModeNone (Some 2) []))
   \<and> load Map.empty = Inr initial_player"
proof -
  have l: "load Map.empty = Inr initial_player"
    by (simp add: load_def load_index_def load_mode_def)
  have d: "distinct_ids initial_player" by (simp add: distinct_ids_def initial_player_def)
  have r: "reachable_in distinct_ids initial_player" using l d by (rule reachable_in.loaded)
  have p: "position_valid (demo_player ModeNone (Some 2) [])"
    "distinct_ids (demo_player ModeNone (Some 2) [])"
    by (simp_all add: position_valid_def distinct_ids_def demo_player_def demo_item_def)
  have s: "step (demo_player ModeNone (Some 2) []) (removeVideo 3 (demo_player ModeNone (Some 2) []))"
    by (rule step.remove)
  show ?thesis
    using position_valid_with_distinct_ids
      [of initial_player "removeVideo 3 (demo_player ModeNone (Some 2) [])"
          Map.empty initial_player]
      position_valid_with_distinct_ids
      [of "demo_player ModeNone (Some 2) []"
          "removeVideo 3 (demo_player ModeNone (Some 2) [])" Map.empty initial_player]
      l r p s
    by blast
qed

end
